theory Spec2Isabelle
  imports Main "HOL-Library.AList" "HOL-Library.Sublist"
begin

section \<open>icepick: persistent updates of frozen object hierarchies\<close>

text \<open>
  A shallow embedding of \<^verbatim>\<open>src/icepick.js\<close>. The JavaScript works on objects and arrays
  that live in the heap and are compared by identity (\<^verbatim>\<open>===\<close>), and it freezes them in
  place, so the model has an explicit store: a heap is a list of objects, the address of
  an object is its position in the list, and a reference value \<open>Ref a\<close> is equal to
  another one exactly when both name the same object.

  Scope of the model.
  \<^item> The language is ECMAScript 2015 or later: \<^verbatim>\<open>Object.keys\<close>, \<^verbatim>\<open>Object.freeze\<close>
    and \<^verbatim>\<open>Object.isFrozen\<close> accept a number, boolean or string (they raise
    \<^verbatim>\<open>TypeError\<close> on these in ECMAScript 5), and \<^verbatim>\<open>Object.keys\<close> raises
    \<^verbatim>\<open>TypeError\<close> on \<^verbatim>\<open>undefined\<close> and \<^verbatim>\<open>null\<close>.
  \<^item> Objects carry own enumerable data properties. A property key is a string; a number
    used as a key is its decimal string. \<open>Idx n\<close> is the key of the array index \<open>n\<close>,
    \<open>Name s\<close> any other key. Keys that name built-in or inherited properties
    (\<^verbatim>\<open>length\<close>, \<^verbatim>\<open>__proto__\<close>, the methods of the prototypes) are outside
    the model, and so are functions, symbols, accessors and floating-point numbers.
  \<^item> The call stack is unbounded, except where the source recurses without end.
\<close>

subsection \<open>Values, objects and the heap\<close>

type_synonym addr = nat

datatype key = Idx nat | Name string

datatype val = Undefined | Null | Bool bool | Num int | Str string | Ref addr

text \<open>
  An object or array: \<open>props\<close> holds the own properties in the order of their creation,
  \<open>len\<close> is the \<^verbatim>\<open>length\<close> of an array (an array may have holes: indices below its
  length with no property), \<open>frozen\<close> is set by \<^verbatim>\<open>Object.freeze\<close>.
\<close>

record jsobj =
  is_array :: bool
  len :: nat
  props :: "(key \<times> val) list"
  frozen :: bool

type_synonym heap = "jsobj list"

datatype error = CycleError | TypeError | StackOverflow

text \<open>\<^verbatim>\<open>{}\<close> and \<^verbatim>\<open>Array(n)\<close>, both not yet stored.\<close>

definition emptyObject :: jsobj where
  "emptyObject = \<lparr>is_array = False, len = 0, props = [], frozen = False\<rparr>"

definition newArray :: "nat \<Rightarrow> jsobj" where
  "newArray n = \<lparr>is_array = True, len = n, props = [], frozen = False\<rparr>"

text \<open>
  JavaScript has no dangling reference. The model reads an address outside the heap as
  an empty, unfrozen object, so that every definition is total.
\<close>

definition objAt :: "heap \<Rightarrow> addr \<Rightarrow> jsobj" where
  "objAt h a = (if a < length h then h ! a else emptyObject)"

definition alloc :: "heap \<Rightarrow> jsobj \<Rightarrow> heap \<times> addr" where
  "alloc h obj = (h @ [obj], length h)"

subsection \<open>Property access\<close>

fun indexKeys :: "(key \<times> val) list \<Rightarrow> nat list" where
  "indexKeys [] = []"
| "indexKeys ((Idx n, v) # ps) = n # indexKeys ps"
| "indexKeys ((Name s, v) # ps) = indexKeys ps"

fun nameKeys :: "(key \<times> val) list \<Rightarrow> key list" where
  "nameKeys [] = []"
| "nameKeys ((Idx n, v) # ps) = nameKeys ps"
| "nameKeys ((Name s, v) # ps) = Name s # nameKeys ps"

text \<open>\<^verbatim>\<open>Object.keys(obj)\<close>: the indices in ascending order, then the names in creation order.\<close>

definition objectKeys :: "jsobj \<Rightarrow> key list" where
  "objectKeys obj = map Idx (sort (indexKeys (props obj))) @ nameKeys (props obj)"

text \<open>\<^verbatim>\<open>obj[key]\<close> on an object: a missing property reads as \<^verbatim>\<open>undefined\<close>.\<close>

definition getOwn :: "jsobj \<Rightarrow> key \<Rightarrow> val" where
  "getOwn obj key = (case map_of (props obj) key of None \<Rightarrow> Undefined | Some v \<Rightarrow> v)"

text \<open>
  \<^verbatim>\<open>obj[key] = v\<close> on an unfrozen object: the property is replaced where it stands or
  appended; an array grows to hold a new index.
\<close>

definition setOwn :: "jsobj \<Rightarrow> key \<Rightarrow> val \<Rightarrow> jsobj" where
  "setOwn obj key v =
     obj\<lparr>props := AList.update key v (props obj),
         len := (case key of
                   Idx n \<Rightarrow> if is_array obj \<and> len obj \<le> n then Suc n else len obj
                 | Name s \<Rightarrow> len obj)\<rparr>"

text \<open>\<^verbatim>\<open>delete obj[key]\<close> on an unfrozen object: the length of an array stays.\<close>

definition deleteOwn :: "jsobj \<Rightarrow> key \<Rightarrow> jsobj" where
  "deleteOwn obj key = obj\<lparr>props := AList.delete key (props obj)\<rparr>"

text \<open>
  \<^verbatim>\<open>val[key]\<close> on any value: \<^verbatim>\<open>TypeError\<close> on \<^verbatim>\<open>undefined\<close> and \<^verbatim>\<open>null\<close>; a
  number or boolean has no own property; a string has its characters.
\<close>

fun getProp :: "heap \<Rightarrow> val \<Rightarrow> key \<Rightarrow> error + val" where
  "getProp h Undefined key = Inl TypeError"
| "getProp h Null key = Inl TypeError"
| "getProp h (Bool b) key = Inr Undefined"
| "getProp h (Num n) key = Inr Undefined"
| "getProp h (Str s) (Idx n) = Inr (if n < length s then Str [s ! n] else Undefined)"
| "getProp h (Str s) (Name m) = Inr Undefined"
| "getProp h (Ref a) key = Inr (getOwn (objAt h a) key)"

text \<open>\<^verbatim>\<open>Object.keys(val)\<close> on any value.\<close>

fun keysOf :: "heap \<Rightarrow> val \<Rightarrow> error + key list" where
  "keysOf h Undefined = Inl TypeError"
| "keysOf h Null = Inl TypeError"
| "keysOf h (Bool b) = Inr []"
| "keysOf h (Num n) = Inr []"
| "keysOf h (Str s) = Inr (map Idx [0..<length s])"
| "keysOf h (Ref a) = Inr (objectKeys (objAt h a))"

fun isArray :: "heap \<Rightarrow> val \<Rightarrow> bool" where
  "isArray h (Ref a) = is_array (objAt h a)"
| "isArray h v = False"

text \<open>\<^verbatim>\<open>typeof val === "object"\<close>, which holds of \<^verbatim>\<open>null\<close> too.\<close>

fun typeofObject :: "val \<Rightarrow> bool" where
  "typeofObject Null = True"
| "typeofObject (Ref a) = True"
| "typeofObject v = False"

text \<open>\<^verbatim>\<open>arr.length\<close>, read only where \<^verbatim>\<open>Array.isArray(arr)\<close> holds.\<close>

fun arrayLength :: "heap \<Rightarrow> val \<Rightarrow> nat" where
  "arrayLength h (Ref a) = len (objAt h a)"
| "arrayLength h v = 0"

text \<open>\<^verbatim>\<open>Object.freeze(val)\<close> and \<^verbatim>\<open>Object.isFrozen(val)\<close>; a primitive counts as frozen.\<close>

fun objectFreeze :: "heap \<Rightarrow> val \<Rightarrow> heap" where
  "objectFreeze h (Ref a) = h[a := (objAt h a)\<lparr>frozen := True\<rparr>]"
| "objectFreeze h v = h"

fun isFrozen :: "heap \<Rightarrow> val \<Rightarrow> bool" where
  "isFrozen h (Ref a) = frozen (objAt h a)"
| "isFrozen h v = True"

subsection \<open>The source, function by function\<close>

definition weCareAbout :: "heap \<Rightarrow> val \<Rightarrow> bool" where
  "weCareAbout h v = (Null \<noteq> v \<and> (isArray h v \<or> typeofObject v))"

text \<open>
  The loop of \<^verbatim>\<open>arrayClone\<close> and \<^verbatim>\<open>objClone\<close>: \<^verbatim>\<open>result[key] = obj[key]\<close> for each
  key in turn. The result is the local, unfrozen copy; \<open>assoc\<close> and \<open>del\<close> store it.
\<close>

fun copyProps :: "heap \<Rightarrow> val \<Rightarrow> key list \<Rightarrow> jsobj \<Rightarrow> error + jsobj" where
  "copyProps h obj [] result = Inr result"
| "copyProps h obj (key # keys) result =
     (case getProp h obj key of
        Inl e \<Rightarrow> Inl e
      | Inr v \<Rightarrow> copyProps h obj keys (setOwn result key v))"

definition arrayClone :: "heap \<Rightarrow> val \<Rightarrow> error + jsobj" where
  "arrayClone h arr =
     (let length = arrayLength h arr
      in copyProps h arr (map Idx [0..<length]) (newArray length))"

definition objClone :: "heap \<Rightarrow> val \<Rightarrow> error + jsobj" where
  "objClone h obj =
     (case keysOf h obj of
        Inl e \<Rightarrow> Inl e
      | Inr keys \<Rightarrow> copyProps h obj keys emptyObject)"

definition clone :: "heap \<Rightarrow> val \<Rightarrow> error + jsobj" where
  "clone h coll = (if isArray h coll then arrayClone h coll else objClone h coll)"

text \<open>
  \<^verbatim>\<open>baseFreeze(coll, prevNodes)\<close> with the \<^verbatim>\<open>forEach\<close> over the keys as \<open>freezeKeys\<close>.
  The result is the heap; the value returned by the source is \<open>coll\<close> itself. The source
  pushes \<open>coll\<close> on the shared array \<open>prevNodes\<close> before the loop and pops it after; a
  call that returns leaves the array as it found it, so the model hands the extended
  list to the loop and keeps its own.
\<close>

function baseFreeze :: "heap \<Rightarrow> val list \<Rightarrow> val \<Rightarrow> error + heap"
  and freezeKeys :: "heap \<Rightarrow> val list \<Rightarrow> val \<Rightarrow> key list \<Rightarrow> error + heap" where
  "baseFreeze h prevNodes coll =
     (if filter (\<lambda>node. node = coll) prevNodes \<noteq> [] then Inl CycleError
      else
        (case keysOf (objectFreeze h coll) coll of
           Inl e \<Rightarrow> Inl e
         | Inr keys \<Rightarrow> freezeKeys (objectFreeze h coll) (prevNodes @ [coll]) coll keys))"
| "freezeKeys h prevNodes coll [] = Inr h"
| "freezeKeys h prevNodes coll (key # keys) =
     (case getProp h coll key of
        Inl e \<Rightarrow> Inl e
      | Inr prop \<Rightarrow>
          if weCareAbout h prop then
            (case baseFreeze h prevNodes prop of
               Inl e \<Rightarrow> Inl e
             | Inr h' \<Rightarrow> freezeKeys h' prevNodes coll keys)
          else freezeKeys h prevNodes coll keys)"
  by pat_completeness auto

definition freeze :: "heap \<Rightarrow> val \<Rightarrow> error + heap \<times> val" where
  "freeze h coll =
     (case baseFreeze h [] coll of
        Inl e \<Rightarrow> Inl e
      | Inr h' \<Rightarrow> Inr (h', coll))"

text \<open>
  \<^verbatim>\<open>assoc(coll, key, value)\<close>. The result is the heap after the call and the
  reference returned.
\<close>

definition assoc :: "heap \<Rightarrow> val \<Rightarrow> key \<Rightarrow> val \<Rightarrow> error + heap \<times> val" where
  "assoc h coll key value =
     (case clone h coll of
        Inl e \<Rightarrow> Inl e
      | Inr cloned \<Rightarrow>
          (case alloc h cloned of
             (h1, newObj) \<Rightarrow>
               (case (if weCareAbout h1 value \<and> \<not> isFrozen h1 value
                      then baseFreeze h1 [] value else Inr h1) of
                  Inl e \<Rightarrow> Inl e
                | Inr h2 \<Rightarrow>
                    Inr (objectFreeze (h2[newObj := setOwn (objAt h2 newObj) key value])
                           (Ref newObj),
                         Ref newObj))))"

definition del :: "heap \<Rightarrow> val \<Rightarrow> key \<Rightarrow> error + heap \<times> val" where
  "del h obj key =
     (case clone h obj of
        Inl e \<Rightarrow> Inl e
      | Inr cloned \<Rightarrow>
          (case alloc h cloned of
             (h1, newObj) \<Rightarrow>
               Inr (objectFreeze (h1[newObj := deleteOwn (objAt h1 newObj) key]) (Ref newObj),
                    Ref newObj)))"

text \<open>
  \<^verbatim>\<open>assocIn(coll, path, value)\<close>, the path an array of keys. With an empty path the
  source never returns: \<^verbatim>\<open>path[0]\<close> is \<^verbatim>\<open>undefined\<close>, \<^verbatim>\<open>path.length\<close> is not 1,
  and the call recurses on \<^verbatim>\<open>coll["undefined"]\<close> with the empty path again, until
  indexing \<^verbatim>\<open>undefined\<close> raises \<^verbatim>\<open>TypeError\<close> or, on a cycle of such properties,
  the stack is exhausted. A chain of more than \<open>length h + 1\<close> objects of the heap \<open>h\<close>
  repeats one of them, so \<open>emptyPathDescent\<close> follows the chain that far.
\<close>

fun emptyPathDescent :: "heap \<Rightarrow> nat \<Rightarrow> val \<Rightarrow> error" where
  "emptyPathDescent h 0 coll = StackOverflow"
| "emptyPathDescent h (Suc depth) coll =
     (case getProp h coll (Name ''undefined'') of
        Inl e \<Rightarrow> e
      | Inr sub \<Rightarrow> emptyPathDescent h depth sub)"

fun assocIn :: "heap \<Rightarrow> val \<Rightarrow> key list \<Rightarrow> val \<Rightarrow> error + heap \<times> val" where
  "assocIn h coll [] value = Inl (emptyPathDescent h (length h + 2) coll)"
| "assocIn h coll [key0] value = assoc h coll key0 value"
| "assocIn h coll (key0 # rest) value =
     (case getProp h coll key0 of
        Inl e \<Rightarrow> Inl e
      | Inr sub \<Rightarrow>
          (case assocIn h sub rest value of
             Inl e \<Rightarrow> Inl e
           | Inr (h1, inner) \<Rightarrow> assoc h1 coll key0 inner))"

text \<open>
  \<^verbatim>\<open>baseGet(coll, path)\<close>, exported as \<^verbatim>\<open>getIn\<close>: \<open>reduceGet\<close> is the
  \<^verbatim>\<open>reduce\<close> over the keys; a path that is \<^verbatim>\<open>null\<close> or \<^verbatim>\<open>undefined\<close> is \<open>None\<close>.
\<close>

fun reduceGet :: "heap \<Rightarrow> key list \<Rightarrow> val \<Rightarrow> error + val" where
  "reduceGet h [] val = Inr val"
| "reduceGet h (key # keys) val =
     (case getProp h val key of
        Inl e \<Rightarrow> Inl e
      | Inr v \<Rightarrow> reduceGet h keys v)"

definition baseGet :: "heap \<Rightarrow> val \<Rightarrow> key list option \<Rightarrow> error + val" where
  "baseGet h coll path = reduceGet h (case path of None \<Rightarrow> [] | Some keys \<Rightarrow> keys) coll"

definition getIn :: "heap \<Rightarrow> val \<Rightarrow> key list option \<Rightarrow> error + val" where
  "getIn = baseGet"

text \<open>
  \<^verbatim>\<open>updateIn(coll, path, callback)\<close>. The callback is any JavaScript function of one
  argument: it may allocate and write to the heap, and it may raise.
\<close>

definition updateIn ::
  "heap \<Rightarrow> val \<Rightarrow> key list \<Rightarrow> (heap \<Rightarrow> val \<Rightarrow> error + heap \<times> val) \<Rightarrow> error + heap \<times> val" where
  "updateIn h coll path callback =
     (case baseGet h coll (Some path) of
        Inl e \<Rightarrow> Inl e
      | Inr existingVal \<Rightarrow>
          (case callback h existingVal of
             Inl e \<Rightarrow> Inl e
           | Inr (h1, newVal) \<Rightarrow> assocIn h1 coll path newVal))"

text \<open>
  The update as the specification composes it, for C8:
  \<^verbatim>\<open>assocIn(c, path, fn(getIn(c, path)))\<close>, the arguments evaluated from left to right.
\<close>

definition updateIn_spec ::
  "heap \<Rightarrow> val \<Rightarrow> key list \<Rightarrow> (heap \<Rightarrow> val \<Rightarrow> error + heap \<times> val) \<Rightarrow> error + heap \<times> val" where
  "updateIn_spec h c path fn =
     (case getIn h c (Some path) of
        Inl e \<Rightarrow> Inl e
      | Inr old \<Rightarrow>
          (case fn h old of
             Inl e \<Rightarrow> Inl e
           | Inr (h1, new) \<Rightarrow> assocIn h1 c path new))"

subsection \<open>Notions used in the statements\<close>

text \<open>\<^verbatim>\<open>val[key]\<close> where it raises nothing, that is on every value but \<^verbatim>\<open>undefined\<close> and \<^verbatim>\<open>null\<close>.\<close>

definition readProp :: "heap \<Rightarrow> val \<Rightarrow> key \<Rightarrow> val" where
  "readProp h v k = (case getProp h v k of Inl e \<Rightarrow> Undefined | Inr x \<Rightarrow> x)"

text \<open>The keys that \<open>clone\<close> copies: the indices below the length of an array, the own keys of anything else.\<close>

definition cloneKeys :: "heap \<Rightarrow> val \<Rightarrow> key list" where
  "cloneKeys h v =
     (if isArray h v then map Idx [0..<arrayLength h v]
      else (case keysOf h v of Inl e \<Rightarrow> [] | Inr ks \<Rightarrow> ks))"

text \<open>
  \<open>arrayDrops h c k\<close>: \<open>c\<close> is an array and \<open>k\<close> is a key that \<^verbatim>\<open>arrayClone\<close> does not
  copy, that is any key but an index below the length of \<open>c\<close>. (JavaScript lets an
  array carry named properties beside its elements.)
\<close>

definition arrayDrops :: "heap \<Rightarrow> val \<Rightarrow> key \<Rightarrow> bool" where
  "arrayDrops h c k =
     (isArray h c \<and> (case k of Idx n \<Rightarrow> \<not> n < arrayLength h c | Name s \<Rightarrow> True))"

text \<open>
  \<open>preserved h h'\<close>: every object of the heap \<open>h\<close> is in \<open>h'\<close> at its address, of the
  same kind and length and with the same properties (the same keys, holding the same
  values and the same children by identity), and frozen if it was; \<open>h'\<close> may hold
  more objects.
\<close>

definition preserved :: "heap \<Rightarrow> heap \<Rightarrow> bool" where
  "preserved h h' =
     (length h \<le> length h' \<and>
      (\<forall>a<length h.
          is_array (h' ! a) = is_array (h ! a) \<and> len (h' ! a) = len (h ! a) \<and>
          props (h' ! a) = props (h ! a) \<and> (frozen (h ! a) \<longrightarrow> frozen (h' ! a))))"

text \<open>
  The containment relation of a heap: \<open>(a, b)\<close> is an edge when some property of the
  object at \<open>a\<close> holds a reference to the object at \<open>b\<close>. \<open>cyclicFrom h a\<close>: some
  container of the hierarchy under \<open>a\<close> contains itself, directly or through nested
  containers.
\<close>

definition edges :: "heap \<Rightarrow> (addr \<times> addr) set" where
  "edges h = {(a, b). \<exists>k. getOwn (objAt h a) k = Ref b}"

definition cyclicFrom :: "heap \<Rightarrow> addr \<Rightarrow> bool" where
  "cyclicFrom h a = (\<exists>b. (a, b) \<in> (edges h)\<^sup>* \<and> (b, b) \<in> (edges h)\<^sup>+)"

text \<open>A value of the heap \<open>h\<close>: a primitive, or a reference to one of the objects of \<open>h\<close>.\<close>

definition inHeap :: "heap \<Rightarrow> val \<Rightarrow> bool" where
  "inHeap h v = (case v of Ref a \<Rightarrow> a < length h | _ \<Rightarrow> True)"

subsection \<open>Example hierarchies\<close>

text \<open>The frozen hierarchy \<^verbatim>\<open>{a: {b: 1, c: 2}}\<close>: the root at address 0, its child at 1.\<close>

definition h_abc :: heap where
  "h_abc =
     [\<lparr>is_array = False, len = 0, props = [(Name ''a'', Ref 1)], frozen = True\<rparr>,
      \<lparr>is_array = False, len = 0, props = [(Name ''b'', Num 1), (Name ''c'', Num 2)],
         frozen = True\<rparr>]"

text \<open>The frozen hierarchy \<^verbatim>\<open>{count: 1}\<close> and the callback \<^verbatim>\<open>x => x + 1\<close> on numbers.\<close>

definition h_count :: heap where
  "h_count = [\<lparr>is_array = False, len = 0, props = [(Name ''count'', Num 1)], frozen = True\<rparr>]"

definition increment :: "heap \<Rightarrow> val \<Rightarrow> error + heap \<times> val" where
  "increment h x = (case x of Num n \<Rightarrow> Inr (h, Num (n + 1)) | _ \<Rightarrow> Inl TypeError)"

text \<open>The frozen array \<^verbatim>\<open>[5, 6, 7]\<close>.\<close>

definition h_567 :: heap where
  "h_567 =
     [\<lparr>is_array = True, len = 3, props = [(Idx 0, Num 5), (Idx 1, Num 6), (Idx 2, Num 7)],
         frozen = True\<rparr>]"

text \<open>
  The frozen hierarchy \<^verbatim>\<open>{a: {b: 1, c: {}}, s: {t: 2}}\<close>: the root at 0, \<^verbatim>\<open>a\<close> at 1,
  \<^verbatim>\<open>s\<close> at 2, \<^verbatim>\<open>a.c\<close> at 3.
\<close>

definition h_tree :: heap where
  "h_tree =
     [\<lparr>is_array = False, len = 0, props = [(Name ''a'', Ref 1), (Name ''s'', Ref 2)],
         frozen = True\<rparr>,
      \<lparr>is_array = False, len = 0, props = [(Name ''b'', Num 1), (Name ''c'', Ref 3)],
         frozen = True\<rparr>,
      \<lparr>is_array = False, len = 0, props = [(Name ''t'', Num 2)], frozen = True\<rparr>,
      \<lparr>is_array = False, len = 0, props = [], frozen = True\<rparr>]"

text \<open>
  The frozen array \<^verbatim>\<open>[7, 8]\<close> at 0 that also carries the named property \<^verbatim>\<open>foo\<close>,
  holding the frozen \<^verbatim>\<open>{}\<close> at 1.
\<close>

definition h_tagged :: heap where
  "h_tagged =
     [\<lparr>is_array = True, len = 2,
         props = [(Idx 0, Num 7), (Idx 1, Num 8), (Name ''foo'', Ref 1)], frozen = True\<rparr>,
      \<lparr>is_array = False, len = 0, props = [], frozen = True\<rparr>]"

text \<open>\<^verbatim>\<open>cyc = {}; cyc.self = cyc\<close>, not frozen.\<close>

definition h_self :: heap where
  "h_self = [\<lparr>is_array = False, len = 0, props = [(Name ''self'', Ref 0)], frozen = False\<rparr>]"

text \<open>
  \<^verbatim>\<open>shared = []; root = {l: {x: shared}, r: {y: shared}}\<close>, not frozen: the root at 0,
  \<^verbatim>\<open>l\<close> at 1, \<^verbatim>\<open>r\<close> at 2 and the array held by both at 3.
\<close>

definition h_dag :: heap where
  "h_dag =
     [\<lparr>is_array = False, len = 0, props = [(Name ''l'', Ref 1), (Name ''r'', Ref 2)],
         frozen = False\<rparr>,
      \<lparr>is_array = False, len = 0, props = [(Name ''x'', Ref 3)], frozen = False\<rparr>,
      \<lparr>is_array = False, len = 0, props = [(Name ''y'', Ref 3)], frozen = False\<rparr>,
      \<lparr>is_array = True, len = 0, props = [], frozen = False\<rparr>]"

text \<open>
  A frozen \<^verbatim>\<open>{}\<close> at 0 and, built afterwards and not frozen, \<^verbatim>\<open>{n: {}}\<close> at 1 with its
  child at 2.
\<close>

definition h_fresh :: heap where
  "h_fresh =
     [\<lparr>is_array = False, len = 0, props = [], frozen = True\<rparr>,
      \<lparr>is_array = False, len = 0, props = [(Name ''n'', Ref 2)], frozen = False\<rparr>,
      \<lparr>is_array = False, len = 0, props = [], frozen = False\<rparr>]"

subsection \<open>Termination of the freeze\<close>

text \<open>
  Every nested call of \<open>baseFreeze\<close> that goes on adds an object of the heap to
  \<open>prevNodes\<close> that was not there, and freezing changes no length.
\<close>

definition container :: "heap \<Rightarrow> val \<Rightarrow> bool" where
  "container h v = (case v of Ref a \<Rightarrow> a < length h | _ \<Rightarrow> False)"

definition unvisited :: "heap \<Rightarrow> val list \<Rightarrow> nat" where
  "unvisited h prevNodes = card ({..<length h} - {a. Ref a \<in> set prevNodes})"

lemma length_objectFreeze [simp]: "length (objectFreeze h v) = length h"
  by (cases v) simp_all

lemma baseFreeze_length_p:
  "baseFreeze_freezeKeys_dom (Inl (h, prevNodes, coll)) \<Longrightarrow>
     baseFreeze h prevNodes coll = Inr h' \<Longrightarrow> length h' = length h"
  "baseFreeze_freezeKeys_dom (Inr (h, prevNodes, coll, keys)) \<Longrightarrow>
     freezeKeys h prevNodes coll keys = Inr h' \<Longrightarrow> length h' = length h"
proof (induction h prevNodes coll and h prevNodes coll keys arbitrary: h' and h'
       rule: baseFreeze_freezeKeys.pinduct)
  case (1 h prevNodes coll)
  then show ?case
    by (auto simp: baseFreeze.psimps split: if_splits sum.splits)
next
  case (2 h prevNodes coll)
  then show ?case by (simp add: freezeKeys.psimps)
next
  case (3 h prevNodes coll key keys)
  then show ?case
    by (auto simp: freezeKeys.psimps split: if_splits sum.splits)
qed

lemma unvisited_push:
  "Ref a \<notin> set prevNodes \<Longrightarrow> a < length h \<Longrightarrow>
   unvisited h (prevNodes @ [Ref a]) < unvisited h prevNodes"
  unfolding unvisited_def
  by (rule psubset_card_mono) auto

lemma unvisited_push_le: "unvisited h (prevNodes @ [v]) \<le> unvisited h prevNodes"
  unfolding unvisited_def
  by (rule card_mono) auto

lemma unvisited_objectFreeze [simp]:
  "unvisited (objectFreeze h v) prevNodes = unvisited h prevNodes"
  by (simp add: unvisited_def)

lemma weCareAbout_Ref: "weCareAbout h v \<Longrightarrow> \<exists>a. v = Ref a"
  by (cases v) (simp_all add: weCareAbout_def)

lemma objectKeys_emptyObject [simp]: "objectKeys emptyObject = []"
  by (simp add: objectKeys_def emptyObject_def)

lemma keysOf_outside: "\<not> container h v \<Longrightarrow> keysOf (objectFreeze h v) v = keysOf h v"
  by (cases v) (simp_all add: container_def objAt_def)

lemma keysOf_dangling: "\<not> container h v \<Longrightarrow> weCareAbout h v \<Longrightarrow> keysOf h v = Inr []"
  by (cases v) (simp_all add: container_def objAt_def weCareAbout_def)

termination baseFreeze
  apply (relation "inv_image (less_than <*lex*> less_than)
    (\<lambda>x. case x of
        Inl (h, prevNodes, coll) \<Rightarrow>
          (unvisited h prevNodes,
           if container h coll then 0
           else 2 * length (case keysOf h coll of Inr ks \<Rightarrow> ks | _ \<Rightarrow> []) + 1)
      | Inr (h, prevNodes, coll, keys) \<Rightarrow> (unvisited h prevNodes, 2 * length keys))")
  subgoal by (intro wf_inv_image wf_lex_prod wf_less_than)
  apply simp_all
  subgoal for h prevNodes coll keys
    using unvisited_push_le[of h prevNodes coll]
    by (cases coll)
       (auto simp: filter_empty_conv container_def keysOf_outside unvisited_push
             simp del: keysOf.simps objectFreeze.simps)
  subgoal for h coll key keys p
    by (simp add: keysOf_dangling)
  subgoal for h prevNodes coll key p h'
    using baseFreeze_length_p(1)[of h prevNodes p h']
    by (simp add: unvisited_def)
  done

declare baseFreeze.simps [simp del]

subsection \<open>Reading a property, reading along a path\<close>

lemma reduceGet_snoc:
  "reduceGet h (p @ [k]) v =
     (case reduceGet h p v of Inl e \<Rightarrow> Inl e | Inr w \<Rightarrow> getProp h w k)"
  by (induction p arbitrary: v) (auto split: sum.splits)

lemma getProp_Inl_iff:
  "getProp h v k = Inl e \<longleftrightarrow> e = TypeError \<and> (v = Undefined \<or> v = Null)"
  by (cases "(h, v, k)" rule: getProp.cases) auto

lemma reduceGet_raises_iff:
  "reduceGet h path root = Inl e \<longleftrightarrow>
     e = TypeError \<and>
     (\<exists>p. strict_prefix p path \<and>
          (reduceGet h p root = Inr Undefined \<or> reduceGet h p root = Inr Null))"
proof (induction path rule: rev_induct)
  case Nil
  then show ?case by simp
next
  case (snoc k q)
  have sp: "\<And>p. strict_prefix p (q @ [k]) \<longleftrightarrow> p = q \<or> strict_prefix p q"
    by (auto simp: strict_prefix_def)
  show ?case
    unfolding reduceGet_snoc sp
    using snoc.IH
    by (cases "reduceGet h q root") (auto simp: getProp_Inl_iff)
qed

subsection \<open>Copies, frozen heaps and single updates\<close>

lemma getProp_readProp: "v \<noteq> Undefined \<Longrightarrow> v \<noteq> Null \<Longrightarrow> getProp h v k = Inr (readProp h v k)"
  by (cases "(h, v, k)" rule: getProp.cases) (auto simp: readProp_def)

lemma setOwn_fields [simp]:
  "is_array (setOwn obj k v) = is_array obj" "frozen (setOwn obj k v) = frozen obj"
  by (simp_all add: setOwn_def)

lemma map_of_setOwn: "map_of (props (setOwn obj k v)) = (map_of (props obj))(k \<mapsto> v)"
  by (simp add: setOwn_def update_conv')

lemma copyProps_ok:
  assumes "v \<noteq> Undefined" "v \<noteq> Null"
  shows "\<exists>res'. copyProps h v keys res = Inr res' \<and>
           is_array res' = is_array res \<and> frozen res' = frozen res \<and>
           (\<forall>k. map_of (props res') k =
                 (if k \<in> set keys then Some (readProp h v k) else map_of (props res) k))"
proof (induction keys arbitrary: res)
  case Nil
  then show ?case by simp
next
  case (Cons key keys)
  from Cons.IH[of "setOwn res key (readProp h v key)"]
  show ?case
    by (auto simp: getProp_readProp[OF assms] map_of_setOwn)
qed

lemma copyProps_len:
  "copyProps h v keys res = Inr res' \<Longrightarrow> is_array res \<Longrightarrow>
     \<forall>k\<in>set keys. \<exists>n<len res. k = Idx n \<Longrightarrow> len res' = len res"
  apply (induction keys arbitrary: res)
   apply simp
  apply (auto split: sum.splits simp: setOwn_def)
  done

lemma set_objectKeys: "set (objectKeys obj) = fst ` set (props obj)"
proof -
  have "Idx ` set (indexKeys ps) \<union> set (nameKeys ps) = fst ` set ps" for ps
    by (induction ps rule: indexKeys.induct) auto
  then show ?thesis by (simp add: objectKeys_def)
qed

lemma keysOf_ok: "v \<noteq> Undefined \<Longrightarrow> v \<noteq> Null \<Longrightarrow> \<exists>ks. keysOf h v = Inr ks"
  by (cases v) auto

lemma keysOf_Inl_iff: "keysOf h v = Inl e \<longleftrightarrow> e = TypeError \<and> (v = Undefined \<or> v = Null)"
  by (cases v) auto

lemma getOwn_not_key: "k \<notin> fst ` set (props obj) \<Longrightarrow> getOwn obj k = Undefined"
  using map_of_eq_None_iff[of "props obj" k] by (simp add: getOwn_def)

lemma readProp_not_key:
  "keysOf h v = Inr ks \<Longrightarrow> k \<notin> set ks \<Longrightarrow> readProp h v k = Undefined"
  by (cases "(h, v, k)" rule: getProp.cases)
     (auto simp: readProp_def set_objectKeys getOwn_not_key)

lemma clone_ok:
  assumes "v \<noteq> Undefined" "v \<noteq> Null"
  shows "\<exists>obj. clone h v = Inr obj \<and> is_array obj = isArray h v \<and> \<not> frozen obj \<and>
           (isArray h v \<longrightarrow> len obj = arrayLength h v) \<and>
           (\<forall>k. map_of (props obj) k =
                 (if k \<in> set (cloneKeys h v) then Some (readProp h v k) else None))"
proof (cases "isArray h v")
  case True
  let ?n = "arrayLength h v"
  from copyProps_ok[OF assms, of h "map Idx [0..<?n]" "newArray ?n"]
  obtain obj where obj: "copyProps h v (map Idx [0..<?n]) (newArray ?n) = Inr obj"
    "is_array obj = is_array (newArray ?n)" "frozen obj = frozen (newArray ?n)"
    "\<And>k. map_of (props obj) k =
        (if k \<in> set (map Idx [0..<?n]) then Some (readProp h v k) else map_of (props (newArray ?n)) k)"
    by blast
  have "len obj = ?n"
    using copyProps_len[OF obj(1)] by (auto simp: newArray_def)
  with obj True show ?thesis
    by (simp add: clone_def arrayClone_def newArray_def cloneKeys_def)
next
  case False
  from keysOf_ok[OF assms] obtain ks where ks: "keysOf h v = Inr ks" by blast
  from copyProps_ok[OF assms, of h ks emptyObject]
  obtain obj where obj: "copyProps h v ks emptyObject = Inr obj"
    "is_array obj = is_array emptyObject" "frozen obj = frozen emptyObject"
    "\<And>k. map_of (props obj) k =
        (if k \<in> set ks then Some (readProp h v k) else map_of (props emptyObject) k)"
    by blast
  with False ks show ?thesis
    by (simp add: clone_def objClone_def emptyObject_def cloneKeys_def)
qed

lemma clone_Inl_iff: "clone h v = Inl e \<longleftrightarrow> e = TypeError \<and> (v = Undefined \<or> v = Null)"
proof (cases "v = Undefined \<or> v = Null")
  case True
  then show ?thesis by (auto simp: clone_def objClone_def)
next
  case False
  with clone_ok[of v h] show ?thesis by auto
qed

lemma cloneKeys_arrayDrops:
  "isArray h c \<Longrightarrow> k \<in> set (cloneKeys h c) \<longleftrightarrow> \<not> arrayDrops h c k"
  by (cases k) (auto simp: cloneKeys_def arrayDrops_def)

lemma arrayDrops_not_array [simp]: "\<not> isArray h c \<Longrightarrow> \<not> arrayDrops h c k"
  by (simp add: arrayDrops_def)

lemma readProp_not_cloneKey:
  assumes "\<not> isArray h v" "k \<notin> set (cloneKeys h v)" "v \<noteq> Undefined" "v \<noteq> Null"
  shows "readProp h v k = Undefined"
proof -
  from keysOf_ok[OF assms(3,4)] obtain ks where ks: "keysOf h v = Inr ks" by blast
  with assms(1,2) show ?thesis
    by (auto simp: cloneKeys_def intro: readProp_not_key)
qed

lemma preserved_refl [simp]: "preserved h h"
  by (simp add: preserved_def)

lemma preserved_trans: "preserved h h1 \<Longrightarrow> preserved h1 h2 \<Longrightarrow> preserved h h2"
  by (auto simp: preserved_def)

lemma preserved_objectFreeze: "preserved h (objectFreeze h v)"
  by (cases v) (auto simp: preserved_def objAt_def nth_list_update)

lemma preserved_append: "preserved h (h @ hs)"
  by (simp add: preserved_def nth_append)

lemma baseFreeze_preserved:
  "baseFreeze h prevNodes coll = Inr h' \<Longrightarrow> length h' = length h \<and> preserved h h'"
  "freezeKeys h prevNodes coll keys = Inr h' \<Longrightarrow> length h' = length h \<and> preserved h h'"
proof (induction h prevNodes coll and h prevNodes coll keys arbitrary: h' and h'
       rule: baseFreeze_freezeKeys.induct)
  case (1 h prevNodes coll)
  from "1.prems" obtain keys where
    keys: "keysOf (objectFreeze h coll) coll = Inr keys"
      "filter (\<lambda>node. node = coll) prevNodes = []"
      "freezeKeys (objectFreeze h coll) (prevNodes @ [coll]) coll keys = Inr h'"
    by (auto simp: baseFreeze.simps split: if_splits sum.splits)
  from "1.IH"[OF _ keys(1) keys(3)] keys(2)
  have "length h' = length (objectFreeze h coll) \<and> preserved (objectFreeze h coll) h'"
    by simp
  then show ?case
    using preserved_trans[OF preserved_objectFreeze, of h coll h'] by simp
next
  case (2 h prevNodes coll)
  then show ?case by simp
next
  case (3 h prevNodes coll key keys)
  from "3.prems" obtain p where p: "getProp h coll key = Inr p"
    by (auto split: sum.splits)
  show ?case
  proof (cases "weCareAbout h p")
    case True
    with "3.prems" p obtain h1 where
      h1: "baseFreeze h prevNodes p = Inr h1" "freezeKeys h1 prevNodes coll keys = Inr h'"
      by (auto split: sum.splits)
    from "3.IH"(1)[OF p True h1(1)] "3.IH"(2)[OF p True h1(1) h1(2)]
    show ?thesis by (auto intro: preserved_trans)
  next
    case False
    with "3.prems" p have "freezeKeys h prevNodes coll keys = Inr h'" by simp
    from "3.IH"(3)[OF p False this] show ?thesis .
  qed
qed

lemma objAt_append [simp]: "objAt (h @ [obj]) (length h) = obj"
  by (simp add: objAt_def)

lemma objAt_append_old: "a < length h \<Longrightarrow> objAt (h @ hs) a = objAt h a"
  by (simp add: objAt_def nth_append)

lemma assoc_result:
  assumes "assoc h c k v = Inr (h', r)"
  shows "r = Ref (length h) \<and> length h' = Suc (length h) \<and> preserved h h' \<and>
         frozen (h' ! length h) \<and> is_array (h' ! length h) = isArray h c \<and>
         (\<forall>k'. map_of (props (h' ! length h)) k' =
                 (if k' = k then Some v
                  else if k' \<in> set (cloneKeys h c) then Some (readProp h c k') else None))"
proof -
  from assms obtain cloned where cl: "clone h c = Inr cloned"
    by (auto simp: assoc_def split: sum.splits)
  then have nn: "c \<noteq> Undefined" "c \<noteq> Null"
    using clone_Inl_iff[of h c TypeError] by auto
  from clone_ok[OF nn, of h] cl
  have cloned: "is_array cloned = isArray h c"
    "\<And>k. map_of (props cloned) k =
        (if k \<in> set (cloneKeys h c) then Some (readProp h c k) else None)"
    by auto
  let ?h1 = "h @ [cloned]"
  from assms cl obtain h2 where
    h2: "(if weCareAbout ?h1 v \<and> \<not> isFrozen ?h1 v then baseFreeze ?h1 [] v else Inr ?h1) = Inr h2"
    and res: "h' = objectFreeze (h2[length h := setOwn (objAt h2 (length h)) k v]) (Ref (length h))"
      "r = Ref (length h)"
    by (auto simp: assoc_def alloc_def split: sum.splits)
  from h2 have p12: "length h2 = length ?h1" "preserved ?h1 h2"
    using baseFreeze_preserved(1)[of ?h1 "[]" v h2] by (auto split: if_splits)
  have new: "h' ! length h = (setOwn (h2 ! length h) k v)\<lparr>frozen := True\<rparr>"
    using p12(1) by (simp add: res objAt_def)
  have old: "h' ! a = h2 ! a" if "a < length h" for a
    using that p12(1) by (simp add: res nth_list_update)
  have "preserved h h2"
    using preserved_trans[OF preserved_append p12(2)] .
  then have "preserved h h'"
    using old p12(1) by (simp add: preserved_def res)
  moreover have "props (h2 ! length h) = props cloned" "is_array (h2 ! length h) = is_array cloned"
    using p12(2) by (auto simp: preserved_def)
  ultimately show ?thesis
    using res p12(1) cloned new by (simp add: map_of_setOwn)
qed

lemma preserved_getOwn:
  "preserved h h' \<Longrightarrow> a < length h \<Longrightarrow> getOwn (objAt h' a) k = getOwn (h ! a) k"
  by (simp add: preserved_def objAt_def getOwn_def)

lemma assoc_read:
  assumes "assoc h c k v = Inr (h', r)" "preserved h' h''"
  shows "getProp h'' r k' =
           Inr (if k' = k then v
                else if k' \<in> set (cloneKeys h c) then readProp h c k' else Undefined)"
proof -
  from assoc_result[OF assms(1)]
  have r: "r = Ref (length h)" "length h < length h'"
    and m: "\<And>k'. map_of (props (h' ! length h)) k' =
                 (if k' = k then Some v
                  else if k' \<in> set (cloneKeys h c) then Some (readProp h c k') else None)"
    by auto
  show ?thesis
    using preserved_getOwn[OF assms(2) r(2), of k'] m[of k']
    by (simp add: r(1) getOwn_def)
qed

lemma assocIn_preserved:
  "assocIn h c path v = Inr (h', r) \<Longrightarrow> preserved h h'"
proof (induction h c path v arbitrary: h' r rule: assocIn.induct)
  case (1 h coll "value")
  then show ?case by simp
next
  case (2 h coll key0 "value")
  then show ?case using assoc_result by simp
next
  case (3 h coll key0 k1 rest "value")
  from "3.prems" obtain sub h1 inner where
    s: "getProp h coll key0 = Inr sub" "assocIn h sub (k1 # rest) value = Inr (h1, inner)"
       "assoc h1 coll key0 inner = Inr (h', r)"
    by (auto split: sum.splits)
  from "3.IH"[OF s(1) s(2)] assoc_result[OF s(3)]
  show ?case by (auto intro: preserved_trans)
qed

lemma assocIn_roundtrip:
  "assocIn h c path v = Inr (h', r) \<Longrightarrow> preserved h' h'' \<Longrightarrow> reduceGet h'' path r = Inr v"
proof (induction h c path v arbitrary: h' r h'' rule: assocIn.induct)
  case (1 h coll "value")
  then show ?case by simp
next
  case (2 h coll key0 "value")
  then show ?case using assoc_read[of h coll key0 "value" h' r h'' key0] by simp
next
  case (3 h coll key0 k1 rest "value")
  from "3.prems" obtain sub h1 inner where
    s: "getProp h coll key0 = Inr sub" "assocIn h sub (k1 # rest) value = Inr (h1, inner)"
       "assoc h1 coll key0 inner = Inr (h', r)"
    by (auto split: sum.splits)
  have "preserved h1 h'" using assoc_result[OF s(3)] by simp
  then have "preserved h1 h''" using "3.prems"(2) by (rule preserved_trans)
  from "3.IH"[OF s(1) s(2) this] assoc_read[OF s(3) "3.prems"(2), of key0]
  show ?case by simp
qed

lemma preserved_frozen_same:
  "preserved h h' \<Longrightarrow> a < length h \<Longrightarrow> frozen (h ! a) \<Longrightarrow> h' ! a = h ! a"
  by (simp add: preserved_def)

lemma del_result:
  assumes "del h c k = Inr (h', r)"
  shows "\<exists>cloned. clone h c = Inr cloned \<and> r = Ref (length h) \<and>
           h' = h @ [(deleteOwn cloned k)\<lparr>frozen := True\<rparr>]"
  using assms by (auto simp: del_def alloc_def objAt_def split: sum.splits)

lemma updateIn_preserved:
  assumes "\<And>h0 x h1 y. fn h0 x = Inr (h1, y) \<Longrightarrow> preserved h0 h1"
    and "updateIn h c path fn = Inr (h', r)"
  shows "preserved h h'"
proof -
  from assms(2) obtain x h1 y where
    s: "fn h x = Inr (h1, y)" "assocIn h1 c path y = Inr (h', r)"
    by (auto simp: updateIn_def split: sum.splits)
  from assms(1)[OF s(1)] assocIn_preserved[OF s(2)] show ?thesis
    by (rule preserved_trans)
qed

lemma map_of_deleteOwn: "map_of (props (deleteOwn obj k)) = (map_of (props obj))(k := None)"
  by (simp add: deleteOwn_def delete_conv')

lemma deleteOwn_fields [simp]:
  "is_array (deleteOwn obj k) = is_array obj" "len (deleteOwn obj k) = len obj"
  "frozen (deleteOwn obj k) = frozen obj"
  by (simp_all add: deleteOwn_def)

lemma assoc_not_null:
  assumes "assoc h c k v = Inr (h', r)"
  shows "c \<noteq> Undefined" "c \<noteq> Null"
  using assms clone_Inl_iff[of h c TypeError]
  by (auto simp: assoc_def split: sum.splits)

lemma assoc_shares:
  assumes "assoc h c k1 v = Inr (h', r)" "preserved h' h''" "k2 \<noteq> k1"
  shows "getProp h'' r k2 = (if arrayDrops h c k2 then Inr Undefined else getProp h c k2)"
proof (cases "isArray h c")
  case True
  with assoc_read[OF assms(1,2), of k2] assms(3)
    getProp_readProp[OF assoc_not_null[OF assms(1)], of h k2]
  show ?thesis by (simp add: cloneKeys_arrayDrops)
next
  case False
  with assoc_read[OF assms(1,2), of k2] assms(3)
    readProp_not_cloneKey[OF False _ assoc_not_null[OF assms(1)], of k2]
    getProp_readProp[OF assoc_not_null[OF assms(1)], of h k2]
  show ?thesis by auto
qed

lemma preserved_objAt:
  "preserved h h' \<Longrightarrow> a < length h \<Longrightarrow>
     props (objAt h' a) = props (objAt h a) \<and> is_array (objAt h' a) = is_array (objAt h a) \<and>
     len (objAt h' a) = len (objAt h a)"
  by (simp add: preserved_def objAt_def)

lemma preserved_getProp:
  "preserved h h' \<Longrightarrow> container h c \<or> (\<forall>a. c \<noteq> Ref a) \<Longrightarrow> getProp h' c k = getProp h c k"
  using preserved_objAt[of h h']
  by (cases "(h, c, k)" rule: getProp.cases) (auto simp: container_def getOwn_def)

lemma preserved_arrayDrops:
  "preserved h h' \<Longrightarrow> container h c \<or> (\<forall>a. c \<noteq> Ref a) \<Longrightarrow>
     arrayDrops h' c k = arrayDrops h c k"
  using preserved_objAt[of h h']
  by (cases c) (auto simp: container_def arrayDrops_def split: key.splits)

lemma getProp_dangling:
  "\<not> container h c \<Longrightarrow> c = Ref a \<Longrightarrow> getProp h c k = Inr Undefined"
  by (simp add: container_def objAt_def getOwn_def emptyObject_def)

lemma assocIn_Undefined: "path \<noteq> [] \<Longrightarrow> assocIn h Undefined path v = Inl TypeError"
  by (cases "(h, Undefined, path, v)" rule: assocIn.cases) (simp_all add: assoc_def clone_def objClone_def)

lemma assocIn_shares:
  "assocIn h c path v = Inr (h', r) \<Longrightarrow> preserved h' h'' \<Longrightarrow>
   strict_prefix p path \<Longrightarrow> k \<noteq> path ! length p \<Longrightarrow> reduceGet h p c = Inr cp \<Longrightarrow>
   reduceGet h'' (p @ [k]) r = (if arrayDrops h cp k then Inr Undefined else getProp h cp k)"
proof (induction h c path v arbitrary: h' r h'' p rule: assocIn.induct)
  case (1 h coll "value")
  then show ?case by simp
next
  case (2 h coll key0 "value")
  then have "p = []" by (cases p) auto
  with 2 assoc_shares[of h coll key0 "value" h' r h'' k]
  show ?case by (simp split: sum.splits)
next
  case (3 h coll key0 k1 rest "value")
  from "3.prems"(1) obtain sub h1 inner where
    s: "getProp h coll key0 = Inr sub" "assocIn h sub (k1 # rest) value = Inr (h1, inner)"
       "assoc h1 coll key0 inner = Inr (h', r)"
    by (auto split: sum.splits)
  have p1: "preserved h h1" using assocIn_preserved[OF s(2)] .
  have valid: "container h coll \<or> (\<forall>a. coll \<noteq> Ref a)"
  proof (rule ccontr)
    assume "\<not> ?thesis"
    then obtain a where "\<not> container h coll" "coll = Ref a" by auto
    from getProp_dangling[OF this, of key0] s(1) have "sub = Undefined" by simp
    with s(2) assocIn_Undefined[of "k1 # rest" h "value"] show False by simp
  qed
  show ?case
  proof (cases p)
    case Nil
    with "3.prems"(4) have k: "k \<noteq> key0" by simp
    from Nil "3.prems"(5) have cp: "cp = coll" by simp
    from assoc_shares[OF s(3) "3.prems"(2) k] preserved_getProp[OF p1 valid, of k]
      preserved_arrayDrops[OF p1 valid, of k]
    show ?thesis by (simp add: Nil cp split: sum.splits)
  next
    case (Cons x p')
    with "3.prems"(3) have x: "x = key0" and sp: "strict_prefix p' (k1 # rest)"
      by auto
    from "3.prems"(4) have k: "k \<noteq> (k1 # rest) ! length p'" by (simp add: Cons)
    from "3.prems"(5) s(1) have cp: "reduceGet h p' sub = Inr cp" by (simp add: Cons x)
    have "preserved h1 h'" using assoc_result[OF s(3)] by simp
    then have "preserved h1 h''" using "3.prems"(2) by (rule preserved_trans)
    from "3.IH"[OF s(1) s(2) this sp k cp]
      assoc_read[OF s(3) "3.prems"(2), of key0]
    show ?thesis by (simp add: Cons x)
  qed
qed

subsection \<open>The freeze and the containment relation\<close>

lemma same_shape_objAt:
  "length h' = length h \<Longrightarrow> preserved h h' \<Longrightarrow>
     props (objAt h' a) = props (objAt h a)"
  by (simp add: preserved_def objAt_def)

lemma same_shape_getOwn:
  "length h' = length h \<Longrightarrow> preserved h h' \<Longrightarrow> getOwn (objAt h' a) k = getOwn (objAt h a) k"
  using same_shape_objAt[of h' h a] by (simp add: getOwn_def)

lemma same_shape_edges:
  "length h' = length h \<Longrightarrow> preserved h h' \<Longrightarrow> edges h' = edges h"
  using same_shape_getOwn[of h' h] by (simp add: edges_def)

lemma objectFreeze_getOwn [simp]: "getOwn (objAt (objectFreeze h v) a) k = getOwn (objAt h a) k"
  by (rule same_shape_getOwn) (simp_all add: preserved_objectFreeze)

lemma objectFreeze_edges [simp]: "edges (objectFreeze h v) = edges h"
  by (rule same_shape_edges) (simp_all add: preserved_objectFreeze)

lemma weCareAbout_Ref_iff [simp]: "weCareAbout h (Ref a)"
  by (simp add: weCareAbout_def)

lemma getOwn_Ref_key: "getOwn obj k = Ref b \<Longrightarrow> k \<in> set (objectKeys obj)"
  using getOwn_not_key[of k obj] by (auto simp: set_objectKeys)

lemma edgesI: "getOwn (objAt h a) k = Ref b \<Longrightarrow> (a, b) \<in> edges h"
  by (auto simp: edges_def)

lemma baseFreeze_raises:
  "baseFreeze h prevNodes coll = Inl e \<Longrightarrow> coll = Ref a \<Longrightarrow>
     e = CycleError \<and>
     (\<exists>x. (a, x) \<in> (edges h)\<^sup>* \<and> (Ref x \<in> set prevNodes \<or> (x, x) \<in> (edges h)\<^sup>+))"
  "freezeKeys h prevNodes coll keys = Inl e \<Longrightarrow> coll = Ref a \<Longrightarrow>
     e = CycleError \<and>
     (\<exists>k\<in>set keys. \<exists>b x. getOwn (objAt h a) k = Ref b \<and> (b, x) \<in> (edges h)\<^sup>* \<and>
         (Ref x \<in> set prevNodes \<or> (x, x) \<in> (edges h)\<^sup>+))"
proof (induction h prevNodes coll and h prevNodes coll keys arbitrary: e a and e a
       rule: baseFreeze_freezeKeys.induct)
  case (1 h prevNodes coll)
  show ?case
  proof (cases "Ref a \<in> set prevNodes")
    case True
    with "1.prems" have "e = CycleError"
      by (simp add: baseFreeze.simps filter_empty_conv)
    moreover have "(a, a) \<in> (edges h)\<^sup>*" by simp
    ultimately show ?thesis using True by blast
  next
    case False
    let ?h1 = "objectFreeze h coll"
    from False "1.prems" have
      nf: "\<not> filter (\<lambda>node. node = coll) prevNodes \<noteq> []"
      and ks: "keysOf ?h1 coll = Inr (objectKeys (objAt ?h1 a))"
      and fk: "freezeKeys ?h1 (prevNodes @ [coll]) coll (objectKeys (objAt ?h1 a)) = Inl e"
      by (auto simp: baseFreeze.simps filter_empty_conv simp del: objectFreeze.simps)
    from "1.IH"[OF nf ks fk "1.prems"(2)]
    obtain k b x where e: "e = CycleError"
      and kb: "getOwn (objAt h a) k = Ref b" "(b, x) \<in> (edges h)\<^sup>*"
      and x: "Ref x \<in> set prevNodes \<or> x = a \<or> (x, x) \<in> (edges h)\<^sup>+"
      using "1.prems"(2) by (auto simp del: objectFreeze.simps)
    have ab: "(a, b) \<in> edges h" using kb(1) by (rule edgesI)
    from x show ?thesis
    proof (elim disjE)
      assume "Ref x \<in> set prevNodes"
      with ab kb(2) e show ?thesis by (meson converse_rtrancl_into_rtrancl)
    next
      assume "x = a"
      with ab kb(2) have "(a, a) \<in> (edges h)\<^sup>+" by (simp add: rtrancl_into_trancl2)
      with e show ?thesis by blast
    next
      assume "(x, x) \<in> (edges h)\<^sup>+"
      with ab kb(2) e show ?thesis by (meson converse_rtrancl_into_rtrancl)
    qed
  qed
next
  case (2 h prevNodes coll)
  then show ?case by simp
next
  case (3 h prevNodes coll key keys)
  let ?p = "getOwn (objAt h a) key"
  have gp: "getProp h coll key = Inr ?p" using "3.prems"(2) by simp
  show ?case
  proof (cases "weCareAbout h ?p")
    case True
    then obtain b where b: "?p = Ref b" using weCareAbout_Ref by blast
    show ?thesis
    proof (cases "baseFreeze h prevNodes ?p")
      case (Inl e')
      with "3.prems" gp True have "e' = e" by simp
      with "3.IH"(1)[OF gp True _ b] Inl b show ?thesis by auto
    next
      case (Inr h1)
      with "3.prems" gp True have fk: "freezeKeys h1 prevNodes coll keys = Inl e" by simp
      from baseFreeze_preserved(1)[OF Inr] have sh: "length h1 = length h" "preserved h h1"
        by auto
      from "3.IH"(2)[OF gp True Inr fk "3.prems"(2)] show ?thesis
        by (auto simp: same_shape_edges[OF sh] same_shape_getOwn[OF sh])
    qed
  next
    case False
    with "3.prems" gp have "freezeKeys h prevNodes coll keys = Inl e" by simp
    from "3.IH"(3)[OF gp False this "3.prems"(2)] show ?thesis by auto
  qed
qed

lemma edgesE: "(a, b) \<in> edges h \<Longrightarrow> \<exists>k\<in>set (objectKeys (objAt h a)). getOwn (objAt h a) k = Ref b"
  by (auto simp: edges_def intro: getOwn_Ref_key)

lemma baseFreeze_returns:
  "baseFreeze h prevNodes coll = Inr h' \<Longrightarrow> coll = Ref a \<Longrightarrow>
     (\<forall>x. (a, x) \<in> (edges h)\<^sup>* \<longrightarrow>
        Ref x \<notin> set prevNodes \<and> (x, x) \<notin> (edges h)\<^sup>+ \<and> (x < length h \<longrightarrow> frozen (h' ! x)))"
  "freezeKeys h prevNodes coll keys = Inr h' \<Longrightarrow> coll = Ref a \<Longrightarrow>
     (\<forall>k\<in>set keys. \<forall>b x. getOwn (objAt h a) k = Ref b \<and> (b, x) \<in> (edges h)\<^sup>* \<longrightarrow>
        Ref x \<notin> set prevNodes \<and> (x, x) \<notin> (edges h)\<^sup>+ \<and> (x < length h \<longrightarrow> frozen (h' ! x)))"
proof (induction h prevNodes coll and h prevNodes coll keys arbitrary: h' a and h' a
       rule: baseFreeze_freezeKeys.induct)
  case (1 h prevNodes coll)
  let ?h1 = "objectFreeze h coll"
  from "1.prems" have
    nf: "\<not> filter (\<lambda>node. node = coll) prevNodes \<noteq> []"
    and ks: "keysOf ?h1 coll = Inr (objectKeys (objAt ?h1 a))"
    and fk: "freezeKeys ?h1 (prevNodes @ [coll]) coll (objectKeys (objAt ?h1 a)) = Inr h'"
    by (auto simp: baseFreeze.simps simp del: objectFreeze.simps split: if_splits)
  from nf "1.prems"(2) have notin: "Ref a \<notin> set prevNodes"
    by (simp add: filter_empty_conv)
  have keys1: "objectKeys (objAt (objectFreeze h (Ref a)) a) = objectKeys (objAt h a)"
    using same_shape_objAt[of "objectFreeze h (Ref a)" h a] preserved_objectFreeze[of h "Ref a"]
    by (simp add: objectKeys_def del: objectFreeze.simps)
  from "1.IH"[OF nf ks fk "1.prems"(2)]
  have ih: "\<And>k b x. k \<in> set (objectKeys (objAt h a)) \<Longrightarrow> getOwn (objAt h a) k = Ref b \<Longrightarrow>
              (b, x) \<in> (edges h)\<^sup>* \<Longrightarrow>
              Ref x \<notin> set prevNodes \<and> x \<noteq> a \<and> (x, x) \<notin> (edges h)\<^sup>+ \<and>
              (x < length h \<longrightarrow> frozen (h' ! x))"
    using "1.prems"(2) by (auto simp: keys1 simp del: objectFreeze.simps)
  have below: "Ref x \<notin> set prevNodes \<and> x \<noteq> a \<and> (x, x) \<notin> (edges h)\<^sup>+ \<and>
              (x < length h \<longrightarrow> frozen (h' ! x))"
    if "(a, b) \<in> edges h" "(b, x) \<in> (edges h)\<^sup>*" for b x
    using edgesE[OF that(1)] ih that(2) by blast
  have self: "(a, a) \<notin> (edges h)\<^sup>+"
  proof
    assume "(a, a) \<in> (edges h)\<^sup>+"
    then obtain b where "(a, b) \<in> edges h" "(b, a) \<in> (edges h)\<^sup>*"
      by (meson tranclD)
    from below[OF this] show False by simp
  qed
  have fr: "frozen (h' ! a)" if "a < length h"
  proof -
    from baseFreeze_preserved(2)[OF fk] have "preserved ?h1 h'" by simp
    moreover have "frozen (?h1 ! a)" using that "1.prems"(2) by simp
    ultimately show ?thesis using that by (simp add: preserved_def)
  qed
  show ?case
  proof (intro allI impI)
    fix x assume "(a, x) \<in> (edges h)\<^sup>*"
    then consider "x = a" | b where "(a, b) \<in> edges h" "(b, x) \<in> (edges h)\<^sup>*"
      by (auto elim: converse_rtranclE)
    then show "Ref x \<notin> set prevNodes \<and> (x, x) \<notin> (edges h)\<^sup>+ \<and> (x < length h \<longrightarrow> frozen (h' ! x))"
    proof cases
      case 1
      with notin self fr show ?thesis by simp
    next
      case 2
      from below[OF this] show ?thesis by simp
    qed
  qed
next
  case (2 h prevNodes coll)
  then show ?case by simp
next
  case (3 h prevNodes coll key keys)
  let ?p = "getOwn (objAt h a) key"
  have gp: "getProp h coll key = Inr ?p" using "3.prems"(2) by simp
  show ?case
  proof (cases "weCareAbout h ?p")
    case True
    then obtain b0 where b0: "?p = Ref b0" using weCareAbout_Ref by blast
    from "3.prems" gp True obtain h1 where
      bf: "baseFreeze h prevNodes ?p = Inr h1" and fk: "freezeKeys h1 prevNodes coll keys = Inr h'"
      by (auto split: sum.splits)
    from baseFreeze_preserved(1)[OF bf] have sh: "length h1 = length h" "preserved h h1"
      by auto
    from baseFreeze_preserved(2)[OF fk] have sh': "length h' = length h1" "preserved h1 h'"
      by auto
    have keep: "frozen (h' ! x)" if "x < length h" "frozen (h1 ! x)" for x
      using that sh' sh(1) by (simp add: preserved_def)
    from "3.IH"(1)[OF gp True bf b0]
    have first: "Ref x \<notin> set prevNodes \<and> (x, x) \<notin> (edges h)\<^sup>+ \<and> (x < length h \<longrightarrow> frozen (h' ! x))"
      if "(b0, x) \<in> (edges h)\<^sup>*" for x
      using that keep[of x] by blast
    from "3.IH"(2)[OF gp True bf fk "3.prems"(2)]
    have "\<forall>k\<in>set keys. \<forall>b x. getOwn (objAt h a) k = Ref b \<and> (b, x) \<in> (edges h)\<^sup>* \<longrightarrow>
            Ref x \<notin> set prevNodes \<and> (x, x) \<notin> (edges h)\<^sup>+ \<and> (x < length h \<longrightarrow> frozen (h' ! x))"
      unfolding same_shape_edges[OF sh] same_shape_getOwn[OF sh] sh(1) .
    moreover have "\<forall>b x. getOwn (objAt h a) key = Ref b \<and> (b, x) \<in> (edges h)\<^sup>* \<longrightarrow>
            Ref x \<notin> set prevNodes \<and> (x, x) \<notin> (edges h)\<^sup>+ \<and> (x < length h \<longrightarrow> frozen (h' ! x))"
      using first b0 by simp
    ultimately show ?thesis by simp
  next
    case False
    then have nr: "\<And>b. ?p \<noteq> Ref b" by auto
    from False "3.prems" gp have "freezeKeys h prevNodes coll keys = Inr h'" by simp
    from "3.IH"(3)[OF gp False this "3.prems"(2)] nr show ?thesis by auto
  qed
qed

lemma assoc_steps:
  assumes "assoc h c k v = Inr (h', r)"
  obtains cloned h2 where "clone h c = Inr cloned"
    "(if weCareAbout (h @ [cloned]) v \<and> \<not> isFrozen (h @ [cloned]) v
      then baseFreeze (h @ [cloned]) [] v else Inr (h @ [cloned])) = Inr h2"
    "h' = objectFreeze (h2[length h := setOwn (objAt h2 (length h)) k v]) (Ref (length h))"
    "r = Ref (length h)"
  using assms by (auto simp: assoc_def alloc_def split: sum.splits)

lemma edges_append: "a < length h \<Longrightarrow> (a, b) \<in> edges (h @ hs) \<longleftrightarrow> (a, b) \<in> edges h"
  by (simp add: edges_def objAt_append_old)

lemma edges_dangling: "\<not> a < length h \<Longrightarrow> (a, b) \<notin> edges h"
  by (simp add: edges_def objAt_def getOwn_def emptyObject_def)

lemma reach_append:
  "(a, x) \<in> (edges h)\<^sup>* \<Longrightarrow> a < length h \<Longrightarrow> (a, x) \<in> (edges (h @ hs))\<^sup>*"
proof (induction rule: converse_rtrancl_induct)
  case base
  then show ?case by simp
next
  case (step a b)
  from step.hyps(1) step.prems have ab: "(a, b) \<in> edges (h @ hs)"
    by (simp add: edges_append)
  show ?case
  proof (cases "b < length h")
    case True
    from step.IH[OF True] ab show ?thesis
      by (rule converse_rtrancl_into_rtrancl[rotated])
  next
    case False
    with step.hyps(2) have "b = x"
      by (auto elim: converse_rtranclE simp: edges_dangling)
    with ab show ?thesis by simp
  qed
qed

lemma assoc_TypeError_iff: "assoc h c k v = Inl TypeError \<longleftrightarrow> c = Undefined \<or> c = Null"
proof
  assume "c = Undefined \<or> c = Null"
  then have "clone h c = Inl TypeError" using clone_Inl_iff by blast
  then show "assoc h c k v = Inl TypeError" by (simp add: assoc_def)
next
  assume a: "assoc h c k v = Inl TypeError"
  show "c = Undefined \<or> c = Null"
  proof (cases "clone h c")
    case (Inl e)
    then show ?thesis using clone_Inl_iff[of h c e] by simp
  next
    case (Inr cloned)
    with a have w: "weCareAbout (h @ [cloned]) v"
      and bf: "baseFreeze (h @ [cloned]) [] v = Inl TypeError"
      by (auto simp: assoc_def alloc_def split: if_splits sum.splits)
    from weCareAbout_Ref[OF w] obtain b where "v = Ref b" by blast
    from baseFreeze_raises(1)[OF bf this] show ?thesis by simp
  qed
qed

lemma assocIn_TypeError_iff:
  "path \<noteq> [] \<Longrightarrow>
   assocIn h c path v = Inl TypeError \<longleftrightarrow>
     (\<exists>p. strict_prefix p path \<and> (reduceGet h p c = Inr Undefined \<or> reduceGet h p c = Inr Null))"
proof (induction h c path v rule: assocIn.induct)
  case (1 h coll "value")
  then show ?case by simp
next
  case (2 h coll key0 "value")
  have "\<And>p. strict_prefix p [key0] \<longleftrightarrow> p = []"
    by (auto simp: strict_prefix_def prefix_Cons)
  then show ?case by (simp add: assoc_TypeError_iff)
next
  case (3 h coll key0 k1 rest "value")
  let ?path = "key0 # k1 # rest"
  have sp: "strict_prefix p ?path \<longleftrightarrow> p = [] \<or> (\<exists>p'. p = key0 # p' \<and> strict_prefix p' (k1 # rest))" for p
    by (cases p) auto
  show ?case
  proof (cases "getProp h coll key0")
    case (Inl e)
    then have "coll = Undefined \<or> coll = Null" "e = TypeError"
      using getProp_Inl_iff by auto
    with Inl show ?thesis by (auto simp: sp)
  next
    case (Inr sub)
    then have nn: "coll \<noteq> Undefined" "coll \<noteq> Null"
      by auto
    have outer: "assoc h1 coll key0 inner \<noteq> Inl TypeError" for h1 inner
      using nn by (simp add: assoc_TypeError_iff)
    have "assocIn h coll ?path value = Inl TypeError \<longleftrightarrow>
            assocIn h sub (k1 # rest) value = Inl TypeError"
      using Inr outer by (auto split: sum.splits)
    also have "\<dots> \<longleftrightarrow> (\<exists>p'. strict_prefix p' (k1 # rest) \<and>
        (reduceGet h p' sub = Inr Undefined \<or> reduceGet h p' sub = Inr Null))"
      using "3.IH"[OF Inr] by simp
    also have "\<dots> \<longleftrightarrow> (\<exists>p. strict_prefix p ?path \<and>
        (reduceGet h p coll = Inr Undefined \<or> reduceGet h p coll = Inr Null))"
      using Inr nn by (auto simp: sp)
    finally show ?thesis .
  qed
qed

text \<open>The definitions unfolded when an operation is run on an example.\<close>

lemmas run_defs = assoc_def del_def clone_def objClone_def arrayClone_def alloc_def
  weCareAbout_def objAt_def setOwn_def getOwn_def deleteOwn_def objectKeys_def emptyObject_def
  newArray_def getIn_def baseGet_def updateIn_def freeze_def baseFreeze.simps

subsection \<open>Lookups\<close>




text \<open>
  C10. \<^verbatim>\<open>getIn(c, p)\<close> with \<^verbatim>\<open>p\<close> \<^verbatim>\<open>null\<close> or \<^verbatim>\<open>undefined\<close> returns \<^verbatim>\<open>c\<close> itself,
  as \<^verbatim>\<open>getIn\<close> with the empty path does.
\<close>

theorem getIn_no_path:
  "getIn h c None = Inr c \<and> getIn h c None = getIn h c (Some [])"
  by (simp add: getIn_def baseGet_def)

subsection \<open>Updates\<close>

text \<open>
  C4. None of \<^verbatim>\<open>assoc\<close>, \<^verbatim>\<open>del\<close>, \<^verbatim>\<open>assocIn\<close> and \<^verbatim>\<open>updateIn\<close> (with a callback
  that itself alters no object) alters an object of the heap it is given: afterwards
  every object has the keys, the values and the children it had, and an object that was
  frozen, such as the input container, is the same in every field. \<^verbatim>\<open>del\<close> leaves the
  whole heap as it was and adds its result.
\<close>

theorem updates_leave_input:
  "(assoc h c k v = Inr (h', r) \<longrightarrow> preserved h h') \<and>
   (del h c k = Inr (h', r) \<longrightarrow> take (length h) h' = h) \<and>
   (assocIn h c path v = Inr (h', r) \<longrightarrow> preserved h h') \<and>
   ((\<forall>h0 x h1 y. fn h0 x = Inr (h1, y) \<longrightarrow> preserved h0 h1) \<and>
    updateIn h c path fn = Inr (h', r) \<longrightarrow> preserved h h') \<and>
   (preserved h h' \<and> a < length h \<and> frozen (h ! a) \<longrightarrow> h' ! a = h ! a)"
proof (intro conjI impI)
  show "preserved h h'" if "assoc h c k v = Inr (h', r)"
    using assoc_result[OF that] by simp
  show "take (length h) h' = h" if "del h c k = Inr (h', r)"
    using del_result[OF that] by auto
  show "preserved h h'" if "assocIn h c path v = Inr (h', r)"
    using assocIn_preserved[OF that] .
  show "preserved h h'"
    if "(\<forall>h0 x h1 y. fn h0 x = Inr (h1, y) \<longrightarrow> preserved h0 h1) \<and>
        updateIn h c path fn = Inr (h', r)"
    using updateIn_preserved[of fn h c path h' r] that by blast
  show "h' ! a = h ! a" if "preserved h h' \<and> a < length h \<and> frozen (h ! a)"
    using preserved_frozen_same[of h h' a] that by blast
qed

text \<open>
  On \<^verbatim>\<open>{a: {b: 1, c: 2}}\<close> and \<^verbatim>\<open>{count: 1}\<close>: after \<^verbatim>\<open>assoc(c, 'x', 9)\<close>,
  \<^verbatim>\<open>del(c, 'a')\<close> and \<^verbatim>\<open>updateIn(c, ['count'], x => x + 1)\<close> the input is as before.
\<close>

theorem updates_leave_input_witness:
  "(\<exists>h'. assoc h_abc (Ref 0) (Name ''x'') (Num 9) = Inr (h', Ref 2) \<and> h' ! 0 = h_abc ! 0) \<and>
   (\<exists>h'. del h_abc (Ref 0) (Name ''a'') = Inr (h', Ref 2) \<and> take (length h_abc) h' = h_abc) \<and>
   (\<exists>h'. updateIn h_count (Ref 0) [Name ''count''] increment = Inr (h', Ref 1) \<and>
         h' ! 0 = h_count ! 0)"
proof -
  obtain h1 where a: "assoc h_abc (Ref 0) (Name ''x'') (Num 9) = Inr (h1, Ref 2)"
    by (simp add: h_abc_def run_defs)
  have "h1 ! 0 = h_abc ! 0"
    using updates_leave_input [of h_abc "Ref 0" "Name ''x''" "Num 9" h1 "Ref 2" "[]" increment 0] a
    by (simp add: h_abc_def)
  moreover obtain h2 where d: "del h_abc (Ref 0) (Name ''a'') = Inr (h2, Ref 2)"
    by (simp add: h_abc_def run_defs)
  moreover have "take (length h_abc) h2 = h_abc"
    using updates_leave_input [of h_abc "Ref 0" "Name ''a''" Null h2 "Ref 2" "[]" increment 0] d
    by blast
  moreover obtain h3 where u: "updateIn h_count (Ref 0) [Name ''count''] increment = Inr (h3, Ref 1)"
    by (simp add: h_count_def increment_def run_defs)
  moreover have "\<forall>h0 x h1 y. increment h0 x = Inr (h1, y) \<longrightarrow> preserved h0 h1"
    by (auto simp: increment_def split: val.splits)
  then have "h3 ! 0 = h_count ! 0"
    using updates_leave_input [of h_count "Ref 0" "Name ''count''" Null h3 "Ref 1"
        "[Name ''count'']" increment 0] u
    by (simp add: h_count_def)
  ultimately show ?thesis using a by blast
qed

text \<open>
  C5. Round trip: when \<^verbatim>\<open>assocIn(c, path, v)\<close> returns, which it does on no empty path,
  \<^verbatim>\<open>getIn\<close> of its result along the same path is \<^verbatim>\<open>v\<close> itself.
\<close>

theorem getIn_assocIn:
  "assocIn h c path v = Inr (h', r) \<Longrightarrow> path \<noteq> [] \<and> getIn h' r (Some path) = Inr v"
  using assocIn_roundtrip [of h c path v h' r h']
  by (cases path) (simp_all add: getIn_def baseGet_def)

text \<open>\<^verbatim>\<open>assocIn(c, ['a', 'b'], 42)\<close> on \<^verbatim>\<open>{a: {b: 1, c: 2}}\<close>, read back.\<close>

theorem getIn_assocIn_witness:
  "\<exists>h'. assocIn h_abc (Ref 0) [Name ''a'', Name ''b''] (Num 42) = Inr (h', Ref 3) \<and>
        getIn h' (Ref 3) (Some [Name ''a'', Name ''b'']) = Inr (Num 42)"
proof -
  obtain h' where a: "assocIn h_abc (Ref 0) [Name ''a'', Name ''b''] (Num 42) = Inr (h', Ref 3)"
    by (simp add: h_abc_def run_defs)
  from getIn_assocIn [OF a] a show ?thesis by blast
qed

text \<open>
  C9. \<^verbatim>\<open>del(s, k)\<close> on an array \<^verbatim>\<open>s\<close> with \<^verbatim>\<open>k\<close> below its length returns a new
  frozen array of the same length in which the index \<^verbatim>\<open>k\<close> is no key (a hole) and
  every other index below the length reads the value it reads in \<^verbatim>\<open>s\<close>: nothing is
  shifted.
\<close>

theorem del_array_leaves_hole:
  "is_array (objAt h s) \<and> k < len (objAt h s) \<longrightarrow>
     (\<exists>obj. del h (Ref s) (Idx k) = Inr (h @ [obj], Ref (length h)) \<and>
        is_array obj \<and> frozen obj \<and> len obj = len (objAt h s) \<and>
        Idx k \<notin> set (objectKeys obj) \<and>
        (\<forall>i<len (objAt h s). i \<noteq> k \<longrightarrow> getOwn obj (Idx i) = getOwn (objAt h s) (Idx i)))"
proof
  assume a: "is_array (objAt h s) \<and> k < len (objAt h s)"
  from clone_ok[of "Ref s" h] obtain cloned where
    c: "clone h (Ref s) = Inr cloned" "is_array cloned" "len cloned = len (objAt h s)"
       "\<And>k. map_of (props cloned) k =
          (if k \<in> set (cloneKeys h (Ref s)) then Some (readProp h (Ref s) k) else None)"
    using a by auto
  let ?obj = "(deleteOwn cloned (Idx k))\<lparr>frozen := True\<rparr>"
  have "del h (Ref s) (Idx k) = Inr (h @ [?obj], Ref (length h))"
    using c(1) by (simp add: del_def alloc_def objAt_def)
  moreover have "Idx k \<notin> set (objectKeys ?obj)"
    using map_of_deleteOwn[of cloned "Idx k"] map_of_eq_None_iff[of "props (deleteOwn cloned (Idx k))" "Idx k"]
    by (simp add: set_objectKeys)
  moreover have "getOwn ?obj (Idx i) = getOwn (objAt h s) (Idx i)"
    if "i < len (objAt h s)" "i \<noteq> k" for i
    using that c(4)[of "Idx i"] a
    by (simp add: getOwn_def map_of_deleteOwn cloneKeys_def readProp_def)
  ultimately show "\<exists>obj. del h (Ref s) (Idx k) = Inr (h @ [obj], Ref (length h)) \<and>
        is_array obj \<and> frozen obj \<and> len obj = len (objAt h s) \<and>
        Idx k \<notin> set (objectKeys obj) \<and>
        (\<forall>i<len (objAt h s). i \<noteq> k \<longrightarrow> getOwn obj (Idx i) = getOwn (objAt h s) (Idx i))"
    using c(2,3) by (intro exI[of _ ?obj]) simp
qed

text \<open>\<^verbatim>\<open>del([5, 6, 7], 1)\<close> is \<^verbatim>\<open>[5, <hole>, 7]\<close>, of length 3.\<close>

theorem del_array_leaves_hole_witness:
  "is_array (objAt h_567 0) \<and> 1 < len (objAt h_567 0) \<and>
   (\<exists>obj. del h_567 (Ref 0) (Idx 1) = Inr (h_567 @ [obj], Ref 1) \<and> len obj = 3 \<and>
      Idx 1 \<notin> set (objectKeys obj) \<and> getOwn obj (Idx 2) = Num 7)"
proof -
  have a: "is_array (objAt h_567 0) \<and> 1 < len (objAt h_567 0)"
    by (simp add: h_567_def objAt_def)
  from del_array_leaves_hole [of h_567 0 1] a
  obtain obj where o:
    "del h_567 (Ref 0) (Idx 1) = Inr (h_567 @ [obj], Ref (length h_567))"
    "len obj = len (objAt h_567 0)" "Idx 1 \<notin> set (objectKeys obj)"
    "\<forall>i<len (objAt h_567 0). i \<noteq> 1 \<longrightarrow> getOwn obj (Idx i) = getOwn (objAt h_567 0) (Idx i)"
    by blast
  from o(4) have "getOwn obj (Idx 2) = Num 7"
    by (simp add: h_567_def objAt_def getOwn_def)
  with a o show ?thesis
    by (simp add: h_567_def objAt_def)
qed

text \<open>
  C2, as the code has it. Structural sharing holds of every property that the shallow
  clone copies. After \<^verbatim>\<open>assoc(c, k1, v)\<close> every other key \<^verbatim>\<open>k2\<close> of the result reads
  the very value it reads in \<^verbatim>\<open>c\<close> (for a container: the same object), unless \<^verbatim>\<open>c\<close> is
  an array and \<^verbatim>\<open>k2\<close> is not an index below its length: such a property of an array is
  not carried over, and the result reads \<^verbatim>\<open>undefined\<close> there. After
  \<^verbatim>\<open>assocIn(c, path, v)\<close> the same holds at every depth: under a proper prefix \<^verbatim>\<open>p\<close> of
  the path, where \<^verbatim>\<open>c\<close> holds the value \<^verbatim>\<open>cp\<close>, a key \<^verbatim>\<open>k\<close> other than the next key of
  the path reads in the result the very value it reads in \<^verbatim>\<open>cp\<close>, unless \<^verbatim>\<open>cp\<close> is an
  array and \<^verbatim>\<open>k\<close> is not an index below its length.
\<close>

theorem structural_sharing:
  "(assoc h c k1 v = Inr (h', r) \<and> k2 \<noteq> k1 \<longrightarrow>
      getIn h' r (Some [k2]) =
        (if arrayDrops h c k2 then Inr Undefined else getIn h c (Some [k2]))) \<and>
   (assocIn h c path v = Inr (h', r) \<and> strict_prefix p path \<and> k \<noteq> path ! length p \<and>
    getIn h c (Some p) = Inr cp \<longrightarrow>
      getIn h' r (Some (p @ [k])) =
        (if arrayDrops h cp k then Inr Undefined else getIn h c (Some (p @ [k]))))"
  using assoc_shares[of h c k1 v h' r h' k2]
    assocIn_shares[of h c path v h' r h' p k cp]
  by (auto simp: getIn_def baseGet_def reduceGet_snoc split: sum.splits)

text \<open>
  On \<^verbatim>\<open>{a: {b: 1, c: {}}, s: {t: 2}}\<close>: after \<^verbatim>\<open>assoc(c, 'a', 9)\<close> the result's \<^verbatim>\<open>s\<close>
  is the object at 2; after \<^verbatim>\<open>assocIn(c, ['a', 'b'], 42)\<close> the result's \<^verbatim>\<open>s\<close> is the
  object at 2 and its \<^verbatim>\<open>a.c\<close> the object at 3. On the array \<^verbatim>\<open>[7, 8]\<close> with the
  property \<^verbatim>\<open>foo\<close>: after \<^verbatim>\<open>assoc(c, 0, 9)\<close> the index 1 still reads 8.
\<close>

theorem structural_sharing_witness:
  "\<not> arrayDrops h_tree (Ref 0) (Name ''s'') \<and> \<not> arrayDrops h_tree (Ref 1) (Name ''c'') \<and>
   \<not> arrayDrops h_tagged (Ref 0) (Idx 1) \<and>
   (\<exists>h'. assoc h_tree (Ref 0) (Name ''a'') (Num 9) = Inr (h', Ref 4) \<and>
         getIn h' (Ref 4) (Some [Name ''s'']) = Inr (Ref 2)) \<and>
   (\<exists>h'. assocIn h_tree (Ref 0) [Name ''a'', Name ''b''] (Num 42) = Inr (h', Ref 5) \<and>
         getIn h' (Ref 5) (Some ([] @ [Name ''s''])) = Inr (Ref 2) \<and>
         getIn h' (Ref 5) (Some ([Name ''a''] @ [Name ''c''])) = Inr (Ref 3)) \<and>
   (\<exists>h'. assoc h_tagged (Ref 0) (Idx 0) (Num 9) = Inr (h', Ref 2) \<and>
         getIn h' (Ref 2) (Some [Idx 1]) = Inr (Num 8))"
proof -
  have nd: "\<not> arrayDrops h_tree (Ref 0) (Name ''s'')" "\<not> arrayDrops h_tree (Ref 1) (Name ''c'')"
    "\<not> arrayDrops h_tagged (Ref 0) (Idx 1)"
    by (simp_all add: h_tree_def h_tagged_def arrayDrops_def objAt_def)
  obtain h1 where a: "assoc h_tree (Ref 0) (Name ''a'') (Num 9) = Inr (h1, Ref 4)"
    by (simp add: h_tree_def run_defs)
  obtain h2 where b: "assocIn h_tree (Ref 0) [Name ''a'', Name ''b''] (Num 42) = Inr (h2, Ref 5)"
    by (simp add: h_tree_def run_defs)
  obtain h3 where c: "assoc h_tagged (Ref 0) (Idx 0) (Num 9) = Inr (h3, Ref 2)"
    by (simp add: h_tagged_def run_defs upt_conv_Cons)
  have old: "getIn h_tree (Ref 0) (Some [Name ''s'']) = Inr (Ref 2)"
    "getIn h_tree (Ref 0) (Some [Name ''a'', Name ''c'']) = Inr (Ref 3)"
    "getIn h_tree (Ref 0) (Some []) = Inr (Ref 0)"
    "getIn h_tree (Ref 0) (Some [Name ''a'']) = Inr (Ref 1)"
    by (simp_all add: h_tree_def run_defs)
  have old': "getIn h_tagged (Ref 0) (Some [Idx 1]) = Inr (Num 8)"
    by (simp add: h_tagged_def run_defs)
  from structural_sharing [of h_tree "Ref 0" "Name ''a''" "Num 9" h1 "Ref 4" "Name ''s''"
      "[]" "[]" "Name ''s''" "Ref 0"] a old nd
  have 1: "getIn h1 (Ref 4) (Some [Name ''s'']) = Inr (Ref 2)" by simp
  from structural_sharing [of h_tree "Ref 0" "Name ''a''" "Num 42" h2 "Ref 5" "Name ''a''"
      "[Name ''a'', Name ''b'']" "[]" "Name ''s''" "Ref 0"] b old nd
  have 2: "getIn h2 (Ref 5) (Some ([] @ [Name ''s''])) = Inr (Ref 2)" by simp
  from structural_sharing [of h_tree "Ref 0" "Name ''a''" "Num 42" h2 "Ref 5" "Name ''a''"
      "[Name ''a'', Name ''b'']" "[Name ''a'']" "Name ''c''" "Ref 1"] b old nd
  have 3: "getIn h2 (Ref 5) (Some ([Name ''a''] @ [Name ''c''])) = Inr (Ref 3)" by simp
  from structural_sharing [of h_tagged "Ref 0" "Idx 0" "Num 9" h3 "Ref 2" "Idx 1"
      "[]" "[]" "Idx 1" "Ref 0"] c old' nd
  have 4: "getIn h3 (Ref 2) (Some [Idx 1]) = Inr (Num 8)" by simp
  from nd a b c 1 2 3 4 show ?thesis by blast
qed

text \<open>
  C2 as stated fails: the frozen array \<^verbatim>\<open>[7, 8]\<close> holds the frozen object at 1 under its
  key \<^verbatim>\<open>foo\<close>; the result of \<^verbatim>\<open>assoc(c, 0, 9)\<close> reads \<^verbatim>\<open>undefined\<close> at \<^verbatim>\<open>foo\<close>, not
  that object.
\<close>

theorem assoc_array_drops_named_property:
  "isFrozen h_tagged (Ref 0) \<and> Name ''foo'' \<noteq> Idx 0 \<and>
   getIn h_tagged (Ref 0) (Some [Name ''foo'']) = Inr (Ref 1) \<and>
   assoc h_tagged (Ref 0) (Idx 0) (Num 9) =
     Inr (h_tagged @
            [\<lparr>is_array = True, len = 2, props = [(Idx 0, Num 9), (Idx 1, Num 8)],
                frozen = True\<rparr>],
          Ref 2) \<and>
   getIn (h_tagged @
            [\<lparr>is_array = True, len = 2, props = [(Idx 0, Num 9), (Idx 1, Num 8)],
                frozen = True\<rparr>])
     (Ref 2) (Some [Name ''foo'']) = Inr Undefined"
  by (simp add: h_tagged_def run_defs upt_conv_Cons)

text \<open>
  C8. Update composition: \<^verbatim>\<open>updateIn(c, path, fn)\<close> is
  \<^verbatim>\<open>assocIn(c, path, fn(getIn(c, path)))\<close>, for every callback, one with effects on the
  heap included. Where \<^verbatim>\<open>getIn\<close> returns a value \<^verbatim>\<open>old\<close>, the callback runs once, on
  \<^verbatim>\<open>old\<close> and the heap as it stands, and \<^verbatim>\<open>assocIn\<close> continues from the heap and the
  value which that one call returns.
\<close>

theorem updateIn_composition:
  "updateIn h c path fn = updateIn_spec h c path fn \<and>
   (getIn h c (Some path) = Inr old \<and> fn h old = Inr (h1, new) \<longrightarrow>
      updateIn h c path fn = assocIn h1 c path new)"
  by (simp add: updateIn_def updateIn_spec_def getIn_def)

text \<open>\<^verbatim>\<open>updateIn(c, ['count'], x => x + 1)\<close> on \<^verbatim>\<open>{count: 1}\<close> is \<^verbatim>\<open>{count: 2}\<close>.\<close>

theorem updateIn_composition_witness:
  "getIn h_count (Ref 0) (Some [Name ''count'']) = Inr (Num 1) \<and>
   increment h_count (Num 1) = Inr (h_count, Num 2) \<and>
   updateIn h_count (Ref 0) [Name ''count''] increment =
     Inr (h_count @
            [\<lparr>is_array = False, len = 0, props = [(Name ''count'', Num 2)], frozen = True\<rparr>],
          Ref 1)"
proof -
  have g: "getIn h_count (Ref 0) (Some [Name ''count'']) = Inr (Num 1)"
    by (simp add: h_count_def run_defs)
  have i: "increment h_count (Num 1) = Inr (h_count, Num 2)"
    by (simp add: increment_def)
  from updateIn_composition [of h_count "Ref 0" "[Name ''count'']" increment "Num 1" h_count "Num 2"]
    g i
  have "updateIn h_count (Ref 0) [Name ''count''] increment =
          assocIn h_count (Ref 0) [Name ''count''] (Num 2)"
    by blast
  then show ?thesis using g i
    by (simp add: h_count_def run_defs)
qed

subsection \<open>Freezing\<close>

text \<open>
  C6. Cycle detection: \<^verbatim>\<open>freeze(root)\<close> raises the cycle error when some container of
  the hierarchy under \<^verbatim>\<open>root\<close> contains itself, directly or through nested containers;
  on every other hierarchy, however deep and whether or not a subtree has several
  parents, it returns \<^verbatim>\<open>root\<close>, having frozen every object of the hierarchy and altered
  nothing else.
\<close>

theorem freeze_cycle_detection:
  "(cyclicFrom h a \<longrightarrow> freeze h (Ref a) = Inl CycleError) \<and>
   (\<not> cyclicFrom h a \<longrightarrow>
      (\<exists>h'. freeze h (Ref a) = Inr (h', Ref a) \<and> length h' = length h \<and> preserved h h' \<and>
            (\<forall>x. (a, x) \<in> (edges h)\<^sup>* \<and> x < length h \<longrightarrow> frozen (h' ! x))))"
proof (cases "baseFreeze h [] (Ref a)")
  case (Inl e)
  from baseFreeze_raises(1)[OF Inl refl]
  have "e = CycleError" "cyclicFrom h a"
    by (auto simp: cyclicFrom_def)
  with Inl show ?thesis by (simp add: freeze_def)
next
  case (Inr h')
  from baseFreeze_returns(1)[OF Inr refl]
  have r: "\<forall>x. (a, x) \<in> (edges h)\<^sup>* \<longrightarrow> (x, x) \<notin> (edges h)\<^sup>+ \<and> (x < length h \<longrightarrow> frozen (h' ! x))"
    by simp
  then have "\<not> cyclicFrom h a" by (auto simp: cyclicFrom_def)
  moreover have "freeze h (Ref a) = Inr (h', Ref a)" using Inr by (simp add: freeze_def)
  ultimately show ?thesis
    using baseFreeze_preserved(1)[OF Inr] r by simp
qed

text \<open>
  \<^verbatim>\<open>cyc.self = cyc\<close> contains itself and \<^verbatim>\<open>freeze(cyc)\<close> raises; the hierarchy whose
  array is held by two parents contains no cycle and \<^verbatim>\<open>freeze\<close> returns it, all four
  objects frozen.
\<close>

theorem freeze_cycle_detection_witness:
  "cyclicFrom h_self 0 \<and> freeze h_self (Ref 0) = Inl CycleError \<and>
   \<not> cyclicFrom h_dag 0 \<and>
   freeze h_dag (Ref 0) = Inr (map (\<lambda>obj. obj\<lparr>frozen := True\<rparr>) h_dag, Ref 0)"
proof -
  have "(0, 0) \<in> edges h_self"
    by (rule edgesI [of _ _ "Name ''self''"]) (simp add: h_self_def objAt_def getOwn_def)
  then have cyc: "cyclicFrom h_self 0"
    unfolding cyclicFrom_def by blast
  with freeze_cycle_detection [of h_self 0]
  have raises: "freeze h_self (Ref 0) = Inl CycleError" by blast
  have returns: "freeze h_dag (Ref 0) = Inr (map (\<lambda>obj. obj\<lparr>frozen := True\<rparr>) h_dag, Ref 0)"
    by (simp add: h_dag_def run_defs)
  with freeze_cycle_detection [of h_dag 0]
  have "\<not> cyclicFrom h_dag 0" by auto
  with cyc raises returns show ?thesis by blast
qed

text \<open>
  C7. \<^verbatim>\<open>assoc(c, k, v)\<close> attaches \<^verbatim>\<open>v\<close> itself: the result reads \<^verbatim>\<open>v\<close> at \<^verbatim>\<open>k\<close>, and
  \<^verbatim>\<open>v\<close> is frozen afterwards. If \<^verbatim>\<open>v\<close> is a container that was not frozen, every object
  reachable from it is frozen afterwards; if \<^verbatim>\<open>v\<close> was frozen already (or is a
  primitive), no object of the heap is touched: nothing is frozen again and nothing is
  copied.
\<close>

theorem assoc_freezes_value:
  "assoc h c k v = Inr (h', r) \<Longrightarrow> inHeap h v \<Longrightarrow>
     getIn h' r (Some [k]) = Inr v \<and> isFrozen h' v \<and>
     (v = Ref a \<and> \<not> isFrozen h v \<longrightarrow>
        (\<forall>x. (a, x) \<in> (edges h)\<^sup>* \<and> x < length h \<longrightarrow> frozen (h' ! x))) \<and>
     (isFrozen h v \<longrightarrow> take (length h) h' = h)"
proof -
  assume a: "assoc h c k v = Inr (h', r)" and v: "inHeap h v"
  from a obtain cloned h2 where
    s: "(if weCareAbout (h @ [cloned]) v \<and> \<not> isFrozen (h @ [cloned]) v
         then baseFreeze (h @ [cloned]) [] v else Inr (h @ [cloned])) = Inr h2"
       "h' = objectFreeze (h2[length h := setOwn (objAt h2 (length h)) k v]) (Ref (length h))"
    by (rule assoc_steps)
  let ?h1 = "h @ [cloned]"
  have fz: "isFrozen ?h1 v = isFrozen h v"
    using v by (cases v) (simp_all add: inHeap_def objAt_append_old)
  have len2: "length h2 = Suc (length h)"
    using s(1) baseFreeze_preserved(1)[of ?h1 "[]" v h2] by (auto split: if_splits)
  have old: "h' ! x = h2 ! x" if "x < length h" for x
    using that len2 by (simp add: s(2))
  have read: "getIn h' r (Some [k]) = Inr v"
    using assoc_read[OF a preserved_refl, of k]
    by (simp add: getIn_def baseGet_def split: sum.splits)
  have deep: "frozen (h' ! x)"
    if "v = Ref b" "\<not> isFrozen h v" "(b, x) \<in> (edges h)\<^sup>*" "x < length h" for b x
  proof -
    from that(1) v have al: "b < length h" by (simp add: inHeap_def)
    from that(1,2) fz s(1) have bf: "baseFreeze ?h1 [] (Ref b) = Inr h2" by simp
    from reach_append[OF that(3) al] have "(b, x) \<in> (edges ?h1)\<^sup>*" .
    with baseFreeze_returns(1)[OF bf refl] that(4) have "frozen (h2 ! x)" by simp
    with old[OF that(4)] show ?thesis by simp
  qed
  have same: "take (length h) h' = h" if "isFrozen h v"
  proof -
    from that fz s(1) have "h2 = ?h1" by simp
    then show ?thesis by (simp add: s(2))
  qed
  have fr: "isFrozen h' v"
  proof (cases v)
    case (Ref b)
    with v have bl: "b < length h" by (simp add: inHeap_def)
    show ?thesis
    proof (cases "isFrozen h v")
      case True
      from same[OF True] have "h' ! b = h ! b" using bl by (metis nth_take)
      with True Ref bl assoc_result[OF a] show ?thesis by (simp add: objAt_def)
    next
      case False
      from deep[OF Ref False, of b] Ref bl assoc_result[OF a] show ?thesis
        by (simp add: objAt_def)
    qed
  qed simp_all
  from read fr deep same show ?thesis by blast
qed

text \<open>
  \<^verbatim>\<open>assoc(c, 'k', v)\<close> with \<^verbatim>\<open>v = {n: {}}\<close> not frozen: the result holds \<^verbatim>\<open>v\<close>, and
  \<^verbatim>\<open>v\<close> and its child are frozen.
\<close>

theorem assoc_freezes_value_witness:
  "inHeap h_fresh (Ref 1) \<and> \<not> isFrozen h_fresh (Ref 1) \<and> (1, 2) \<in> (edges h_fresh)\<^sup>* \<and>
   (\<exists>h'. assoc h_fresh (Ref 0) (Name ''k'') (Ref 1) = Inr (h', Ref 3) \<and>
         getIn h' (Ref 3) (Some [Name ''k'']) = Inr (Ref 1) \<and>
         frozen (h' ! 1) \<and> frozen (h' ! 2))"
proof -
  have v: "inHeap h_fresh (Ref 1)" "\<not> isFrozen h_fresh (Ref 1)"
    by (simp_all add: h_fresh_def inHeap_def objAt_def)
  have "(1, 2) \<in> edges h_fresh"
    by (rule edgesI [of _ _ "Name ''n''"]) (simp add: h_fresh_def objAt_def getOwn_def)
  then have reach: "(1, 2) \<in> (edges h_fresh)\<^sup>*" "(1, 1) \<in> (edges h_fresh)\<^sup>*"
    by auto
  obtain h' where a: "assoc h_fresh (Ref 0) (Name ''k'') (Ref 1) = Inr (h', Ref 3)"
    by (simp add: h_fresh_def run_defs)
  have l: "1 < length h_fresh" "2 < length h_fresh"
    by (simp_all add: h_fresh_def)
  from assoc_freezes_value [OF a v(1), of 1] v(2) reach l
  have "getIn h' (Ref 3) (Some [Name ''k'']) = Inr (Ref 1) \<and> frozen (h' ! 1) \<and> frozen (h' ! 2)"
    by blast
  with v reach(1) a show ?thesis by blast
qed

subsection \<open>Descending through a primitive\<close>

text \<open>
  C3, as the code has it. On a path that is not empty, \<^verbatim>\<open>assocIn(root, path, v)\<close> raises
  a \<^verbatim>\<open>TypeError\<close> exactly when the value reached after a proper prefix of the path (the
  root itself included) is \<^verbatim>\<open>undefined\<close> or \<^verbatim>\<open>null\<close>, and \<^verbatim>\<open>updateIn\<close> raises it then
  as well. A number, a boolean or a string on the way raises nothing by itself.
\<close>

theorem assocIn_raises_iff:
  "path \<noteq> [] \<Longrightarrow>
   (assocIn h root path v = Inl TypeError \<longleftrightarrow>
      (\<exists>p. strict_prefix p path \<and>
           (getIn h root (Some p) = Inr Undefined \<or> getIn h root (Some p) = Inr Null))) \<and>
   ((\<exists>p. strict_prefix p path \<and>
          (getIn h root (Some p) = Inr Undefined \<or> getIn h root (Some p) = Inr Null)) \<longrightarrow>
      updateIn h root path fn = Inl TypeError)"
  using assocIn_TypeError_iff [of path h root v] reduceGet_raises_iff [of h path root TypeError]
  by (auto simp: getIn_def baseGet_def updateIn_def)

text \<open>
  In \<^verbatim>\<open>{a: {b: 1, c: 2}}\<close> the key \<^verbatim>\<open>z\<close> is missing, so \<^verbatim>\<open>assocIn(c, ['z', 'q'], 1)\<close>
  and \<^verbatim>\<open>updateIn(c, ['z', 'q'], x => x + 1)\<close> raise.
\<close>

theorem assocIn_raises_iff_witness:
  "strict_prefix [Name ''z''] [Name ''z'', Name ''q''] \<and>
   getIn h_abc (Ref 0) (Some [Name ''z'']) = Inr Undefined \<and>
   assocIn h_abc (Ref 0) [Name ''z'', Name ''q''] (Num 1) = Inl TypeError \<and>
   updateIn h_abc (Ref 0) [Name ''z'', Name ''q''] increment = Inl TypeError"
proof -
  have p: "strict_prefix [Name ''z''] [Name ''z'', Name ''q'']"
    by simp
  have g: "getIn h_abc (Ref 0) (Some [Name ''z'']) = Inr Undefined"
    by (simp add: h_abc_def run_defs)
  from assocIn_raises_iff [of "[Name ''z'', Name ''q'']" h_abc "Ref 0" "Num 1" increment] p g
  have "assocIn h_abc (Ref 0) [Name ''z'', Name ''q''] (Num 1) = Inl TypeError \<and>
        updateIn h_abc (Ref 0) [Name ''z'', Name ''q''] increment = Inl TypeError"
    by blast
  with p g show ?thesis by blast
qed

text \<open>
  C3 as stated fails: in \<^verbatim>\<open>{count: 1}\<close> the value at \<^verbatim>\<open>count\<close> is the number 1, a
  primitive, and the path \<^verbatim>\<open>['count', 'x']\<close> has a segment left there; yet
  \<^verbatim>\<open>assocIn(c, ['count', 'x'], 9)\<close> raises nothing and returns \<^verbatim>\<open>{count: {x: 9}}\<close>.
\<close>

theorem assocIn_through_number_returns:
  "getIn h_count (Ref 0) (Some [Name ''count'']) = Inr (Num 1) \<and>
   assocIn h_count (Ref 0) [Name ''count'', Name ''x''] (Num 9) =
     Inr (h_count @
            [\<lparr>is_array = False, len = 0, props = [(Name ''x'', Num 9)], frozen = True\<rparr>,
             \<lparr>is_array = False, len = 0, props = [(Name ''count'', Ref 1)], frozen = True\<rparr>],
          Ref 2)"
  by (simp add: h_count_def run_defs)

end
